theory Spec2Isabelle
  imports Main
begin

section \<open>Python values\<close>

text \<open>
  The scraper works on Python strings, integers, lists and dictionaries. A Python
  \<open>str\<close> is modelled as a \<open>string\<close>, each \<open>char\<close> read as one code point below 256;
  an \<open>int\<close> is an unbounded \<open>int\<close>; a \<open>dict\<close> is an association list in insertion
  order whose keys are pairwise distinct.
\<close>

datatype pyval =
    PStr string
  | PInt int
  | PNone
  | PList "pyval list"
  | PDict "(string \<times> pyval) list"

type_synonym pydict = "(string \<times> pyval) list"

text \<open>\<open>d[k] = v\<close>: an existing key keeps its position, a new key goes last.\<close>

fun dict_setitem :: "'k \<Rightarrow> 'v \<Rightarrow> ('k \<times> 'v) list \<Rightarrow> ('k \<times> 'v) list" where
  "dict_setitem k v [] = [(k, v)]"
| "dict_setitem k v ((k', v') # d) =
     (if k = k' then (k, v) # d else (k', v') # dict_setitem k v d)"

text \<open>\<open>d.get(k)\<close> is \<open>map_of d k\<close>; \<open>d.update(e)\<close> stores the items of \<open>e\<close> one by one.\<close>

fun dict_update :: "pydict \<Rightarrow> pydict \<Rightarrow> pydict" where
  "dict_update d [] = d"
| "dict_update d ((k, v) # e) = dict_update (dict_setitem k v d) e"

definition dict_keys :: "pydict \<Rightarrow> string list" where
  "dict_keys d = map fst d"

subsection \<open>\<open>str(int)\<close>\<close>

definition digit_char :: "nat \<Rightarrow> char" where
  "digit_char n = ''0123456789'' ! n"

function str_nat :: "nat \<Rightarrow> string" where
  "str_nat n = (if n < 10 then [digit_char n] else str_nat (n div 10) @ [digit_char (n mod 10)])"
  by pat_completeness auto
termination
  by (relation "measure id") auto

definition str_int :: "int \<Rightarrow> string" where
  "str_int i = (if i < 0 then CHR ''-'' # str_nat (nat (- i)) else str_nat (nat i))"

text \<open>
  The interpreter refuses to convert an integer of more than 4300 digits to a string:
  \<open>str\<close> and \<open>json.dumps\<close> then raise \<open>ValueError\<close>.
\<close>

definition int_max_str_digits :: nat where
  "int_max_str_digits = 4300"

definition str_too_long :: "int \<Rightarrow> bool" where
  "str_too_long i = (int_max_str_digits < length (str_nat (nat \<bar>i\<bar>)))"

text \<open>The least positive integer that is too long to be written.\<close>

definition first_unwritable :: int where
  "first_unwritable = 10 ^ int_max_str_digits"

subsection \<open>\<open>json.dumps(obj, separators=(',', ':'))\<close>\<close>

text \<open>
  The encoder runs with its default \<open>ensure_ascii=True\<close>: inside a string the quote
  and the backslash are escaped, the five control characters with a short form use it,
  and every other character outside the range from space to tilde becomes
  \<open>\uXXXX\<close> with four lower-case hexadecimal digits.
\<close>

definition hex_lower :: "nat \<Rightarrow> char" where
  "hex_lower n = ''0123456789abcdef'' ! n"

definition u_escape :: "nat \<Rightarrow> string" where
  "u_escape n =
     [CHR 0x5C, CHR ''u'', hex_lower (n div 4096 mod 16), hex_lower (n div 256 mod 16),
      hex_lower (n div 16 mod 16), hex_lower (n mod 16)]"

definition escape_char :: "char \<Rightarrow> string" where
  "escape_char c =
     (if c = CHR 0x22 then [CHR 0x5C, CHR 0x22]
      else if c = CHR 0x5C then [CHR 0x5C, CHR 0x5C]
      else if c = CHR 0x0A then [CHR 0x5C, CHR ''n'']
      else if c = CHR 0x0D then [CHR 0x5C, CHR ''r'']
      else if c = CHR 0x09 then [CHR 0x5C, CHR ''t'']
      else if c = CHR 0x08 then [CHR 0x5C, CHR ''b'']
      else if c = CHR 0x0C then [CHR 0x5C, CHR ''f'']
      else if (of_char c :: nat) < 32 \<or> 126 < (of_char c :: nat) then u_escape (of_char c)
      else [c])"

definition escape_body :: "string \<Rightarrow> string" where
  "escape_body s = concat (map escape_char s)"

definition encode_basestring_ascii :: "string \<Rightarrow> string" where
  "encode_basestring_ascii s = CHR 0x22 # escape_body s @ [CHR 0x22]"

fun join_str :: "string \<Rightarrow> string list \<Rightarrow> string" where
  "join_str sep [] = []"
| "join_str sep [x] = x"
| "join_str sep (x # y # ys) = x @ sep @ join_str sep (y # ys)"

fun json_dumps :: "pyval \<Rightarrow> string" where
  "json_dumps (PStr s) = encode_basestring_ascii s"
| "json_dumps (PInt i) = str_int i"
| "json_dumps PNone = ''null''"
| "json_dumps (PList xs) = ''['' @ join_str '','' (map json_dumps xs) @ '']''"
| "json_dumps (PDict kvs) =
     ''{'' @ join_str '','' (map (\<lambda>(k, v). encode_basestring_ascii k @ '':'' @ json_dumps v) kvs)
       @ ''}''"

subsection \<open>\<open>urllib.parse.urlencode\<close>\<close>

text \<open>
  \<open>quote\<close> encodes the string as UTF-8 and keeps a byte only when it is an unreserved
  ASCII character or listed in \<open>safe\<close>; every other byte becomes \<open>%XX\<close> with upper-case
  digits. \<open>quote_plus\<close> also turns each space into a plus sign. \<open>urlencode\<close> of a
  dictionary of strings joins \<open>key=value\<close> with \<open>&\<close>, both sides through
  \<open>quote_plus\<close>.
\<close>

definition utf8_encode :: "string \<Rightarrow> nat list" where
  "utf8_encode s =
     concat (map (\<lambda>c. let n = (of_char c :: nat)
                       in if n < 128 then [n] else [192 + n div 64, 128 + n mod 64]) s)"

definition always_safe :: "string" where
  "always_safe =
     ''ABCDEFGHIJKLMNOPQRSTUVWXYZabcdefghijklmnopqrstuvwxyz0123456789_.-~''"

definition hex_upper :: "nat \<Rightarrow> char" where
  "hex_upper n = ''0123456789ABCDEF'' ! n"

definition quote_byte :: "string \<Rightarrow> nat \<Rightarrow> string" where
  "quote_byte safe b =
     (if b < 128 \<and> char_of b \<in> set (always_safe @ safe) then [char_of b]
      else [CHR ''%'', hex_upper (b div 16), hex_upper (b mod 16)])"

definition quote :: "string \<Rightarrow> string \<Rightarrow> string" where
  "quote s safe = concat (map (quote_byte safe) (utf8_encode s))"

text \<open>\<open>s.replace(' ', '+')\<close>.\<close>

definition replace_space_plus :: "string \<Rightarrow> string" where
  "replace_space_plus s = map (\<lambda>c. if c = CHR '' '' then CHR ''+'' else c) s"

definition quote_plus :: "string \<Rightarrow> string" where
  "quote_plus s =
     (if CHR '' '' \<notin> set s then quote s ''''
      else replace_space_plus (quote s '' ''))"

definition urlencode :: "(string \<times> string) list \<Rightarrow> string" where
  "urlencode params = join_str ''&'' (map (\<lambda>(k, v). quote_plus k @ ''='' @ quote_plus v) params)"

section \<open>The URL builder\<close>

text \<open>\<open>congress: int | str\<close>: a session number, or a string such as \<open>all\<close>.\<close>

datatype congress_arg = CongressInt int | CongressStr string

definition base_url :: string where
  "base_url = ''https://www.congress.gov/search''"

definition congress_str :: "congress_arg \<Rightarrow> string" where
  "congress_str congress =
     (case congress of CongressStr s \<Rightarrow> s | CongressInt i \<Rightarrow> str_int i)"

text \<open>The dictionary \<open>query\<close> of \<open>_build_search_url\<close>, as it stands when it is serialised.\<close>

definition build_query :: "congress_arg \<Rightarrow> string \<Rightarrow> int \<Rightarrow> pydict" where
  "build_query congress source page =
     (let query = [(''congress'', PStr (congress_str congress)),
                   (''source'', PList [PStr source])]
      in if page > 1
         then dict_setitem ''page'' (PInt page) (dict_setitem ''pageSize'' (PInt 100) query)
         else query)"

definition build_search_url :: "congress_arg \<Rightarrow> string \<Rightarrow> int \<Rightarrow> string" where
  "build_search_url congress source page =
     (let params = [(''q'', json_dumps (PDict (build_query congress source page)))]
      in base_url @ ''?'' @ urlencode params)"

section \<open>Reading a built URL back\<close>

text \<open>
  The check of the URL builder takes the value of the parameter \<open>q\<close> out of the URL,
  decodes it with \<open>urllib.parse.unquote\<close> and reads the result with \<open>json.loads\<close>.
\<close>

subsection \<open>\<open>urllib.parse.unquote\<close>\<close>

definition hex_val :: "char \<Rightarrow> nat option" where
  "hex_val c =
     (let n = (of_char c :: nat)
      in if 48 \<le> n \<and> n \<le> 57 then Some (n - 48)
         else if 97 \<le> n \<and> n \<le> 102 then Some (n - 87)
         else if 65 \<le> n \<and> n \<le> 70 then Some (n - 55)
         else None)"

definition hex_byte :: "char \<Rightarrow> char \<Rightarrow> nat option" where
  "hex_byte h l =
     (case hex_val h of
        None \<Rightarrow> None
      | Some a \<Rightarrow> (case hex_val l of None \<Rightarrow> None | Some b \<Rightarrow> Some (16 * a + b)))"

text \<open>
  \<open>%XX\<close> with two hexadecimal digits is a byte, any other per cent sign stays; the
  bytes are read as UTF-8. A plus sign stays a plus sign. \<open>None\<close> stands for a
  result that has a code point above 255 (the replacement character of a broken
  sequence included), which a \<open>string\<close> cannot hold.
\<close>

fun unquote :: "string \<Rightarrow> string option" where
  "unquote [] = Some []"
| "unquote [c] = Some [c]"
| "unquote [c, d] = Some [c, d]"
| "unquote (c # h # l # rest) =
     (if c \<noteq> CHR ''%'' then map_option ((#) c) (unquote (h # l # rest))
      else (case hex_byte h l of
              None \<Rightarrow> map_option ((#) c) (unquote (h # l # rest))
            | Some b \<Rightarrow>
                if b < 128 then map_option ((#) (char_of b)) (unquote rest)
                else if b = 194 \<or> b = 195
                then (case rest of
                        p # h2 # l2 # rest2 \<Rightarrow>
                          (if p \<noteq> CHR ''%'' then None
                           else (case hex_byte h2 l2 of
                                   None \<Rightarrow> None
                                 | Some b2 \<Rightarrow>
                                     if 128 \<le> b2 \<and> b2 < 192
                                     then map_option ((#) (char_of ((b - 192) * 64 + (b2 - 128))))
                                            (unquote rest2)
                                     else None))
                      | _ \<Rightarrow> None)
                else None))"

subsection \<open>\<open>json.loads\<close>\<close>

text \<open>
  The decoder for the values the scraper serialises: objects, arrays, strings, integers
  and \<open>null\<close>, with white space allowed between the tokens. \<open>None\<close> stands for the
  \<open>JSONDecodeError\<close> and for a text with anything else (a float, \<open>true\<close>, \<open>false\<close>, a
  code point above 255).
\<close>

definition is_digit :: "char \<Rightarrow> bool" where
  "is_digit c = (48 \<le> (of_char c :: nat) \<and> (of_char c :: nat) \<le> 57)"

definition dec_value :: "string \<Rightarrow> nat" where
  "dec_value ds = foldl (\<lambda>a c. 10 * a + ((of_char c :: nat) - 48)) 0 ds"

text \<open>A number ends at the end of the text or before a character that cannot extend it.\<close>

definition number_ends :: "string \<Rightarrow> bool" where
  "number_ends rest = (rest = [] \<or> (\<not> is_digit (hd rest) \<and> hd rest \<notin> set ''.eE''))"

definition scan_nat :: "string \<Rightarrow> (nat \<times> string) option" where
  "scan_nat s =
     (let ds = takeWhile is_digit s; rest = dropWhile is_digit s
      in if ds = [] then None
         else if hd ds = CHR ''0'' \<and> length ds > 1 then None
         else if rest \<noteq> [] \<and> hd rest \<in> set ''.eE'' then None
         else Some (dec_value ds, rest))"

definition scan_int :: "string \<Rightarrow> (int \<times> string) option" where
  "scan_int s =
     (case s of
        [] \<Rightarrow> None
      | c # r \<Rightarrow>
          if c = CHR ''-'' then map_option (\<lambda>(n, rest). (- int n, rest)) (scan_nat r)
          else map_option (\<lambda>(n, rest). (int n, rest)) (scan_nat s))"

definition unescape :: "char \<Rightarrow> char option" where
  "unescape c =
     (if c = CHR 0x22 then Some (CHR 0x22)
      else if c = CHR 0x5C then Some (CHR 0x5C)
      else if c = CHR ''/'' then Some (CHR ''/'')
      else if c = CHR ''b'' then Some (CHR 0x08)
      else if c = CHR ''f'' then Some (CHR 0x0C)
      else if c = CHR ''n'' then Some (CHR 0x0A)
      else if c = CHR ''r'' then Some (CHR 0x0D)
      else if c = CHR ''t'' then Some (CHR 0x09)
      else None)"

definition hex4_val :: "char \<Rightarrow> char \<Rightarrow> char \<Rightarrow> char \<Rightarrow> nat option" where
  "hex4_val a b c d =
     (case (hex_byte a b, hex_byte c d) of
        (Some hi, Some lo) \<Rightarrow> Some (256 * hi + lo)
      | _ \<Rightarrow> None)"

definition put_char :: "char \<Rightarrow> (string \<times> string) option \<Rightarrow> (string \<times> string) option" where
  "put_char c r = map_option (\<lambda>(t, rest). (c # t, rest)) r"

text \<open>
  \<open>scan_string\<close> reads the text after an opening quote up to the closing one and
  returns the string with what follows it.
\<close>

fun scan_string :: "string \<Rightarrow> (string \<times> string) option" where
  "scan_string [] = None"
| "scan_string (c # cs) =
     (if c = CHR 0x22 then Some ([], cs)
      else if c = CHR 0x5C then
        (case cs of
           [] \<Rightarrow> None
         | x # r \<Rightarrow>
             if x = CHR ''u'' then
               (case r of
                  h1 # h2 # h3 # h4 # r' \<Rightarrow>
                    (case hex4_val h1 h2 h3 h4 of
                       None \<Rightarrow> None
                     | Some n \<Rightarrow> if n < 256 then put_char (char_of n) (scan_string r') else None)
                | _ \<Rightarrow> None)
             else (case unescape x of None \<Rightarrow> None | Some y \<Rightarrow> put_char y (scan_string r)))
      else if (of_char c :: nat) < 32 then None
      else put_char c (scan_string cs))"

definition skip_ws :: "string \<Rightarrow> string" where
  "skip_ws s = dropWhile (\<lambda>c. c \<in> set [CHR '' '', CHR 0x09, CHR 0x0A, CHR 0x0D]) s"

text \<open>
  The three parsers call one another, so they take fuel, which \<open>json_loads\<close> sets to
  more than the length of the text. \<open>parse_elems\<close> reads the elements of an array after
  its bracket, \<open>parse_members\<close> the members of an object after its brace; an object
  becomes a dictionary by storing its pairs in order.
\<close>

fun parse_value :: "nat \<Rightarrow> string \<Rightarrow> (pyval \<times> string) option"
  and parse_elems :: "nat \<Rightarrow> string \<Rightarrow> (pyval list \<times> string) option"
  and parse_members :: "nat \<Rightarrow> string \<Rightarrow> (pydict \<times> string) option" where
  "parse_value 0 s = None"
| "parse_value (Suc n) s =
     (case s of
        [] \<Rightarrow> None
      | c # r \<Rightarrow>
          if c = CHR 0x22 then map_option (\<lambda>(t, r'). (PStr t, r')) (scan_string r)
          else if c = CHR ''['' then
            (case skip_ws r of
               [] \<Rightarrow> None
             | c' # r' \<Rightarrow>
                 if c' = CHR '']'' then Some (PList [], r')
                 else map_option (\<lambda>(vs, r''). (PList vs, r'')) (parse_elems n (c' # r')))
          else if c = CHR ''{'' then
            (case skip_ws r of
               [] \<Rightarrow> None
             | c' # r' \<Rightarrow>
                 if c' = CHR ''}'' then Some (PDict [], r')
                 else map_option (\<lambda>(kvs, r''). (PDict (dict_update [] kvs), r''))
                        (parse_members n (c' # r')))
          else if take 4 s = ''null'' then Some (PNone, drop 4 s)
          else map_option (\<lambda>(i, r'). (PInt i, r')) (scan_int s))"
| "parse_elems 0 s = None"
| "parse_elems (Suc n) s =
     (case parse_value n s of
        None \<Rightarrow> None
      | Some (v, r) \<Rightarrow>
          (case skip_ws r of
             [] \<Rightarrow> None
           | c # r' \<Rightarrow>
               if c = CHR '']'' then Some ([v], r')
               else if c = CHR '','' then
                 map_option (\<lambda>(vs, r''). (v # vs, r'')) (parse_elems n (skip_ws r'))
               else None))"
| "parse_members 0 s = None"
| "parse_members (Suc n) s =
     (case s of
        [] \<Rightarrow> None
      | q # r \<Rightarrow>
          if q \<noteq> CHR 0x22 then None
          else (case scan_string r of
                  None \<Rightarrow> None
                | Some (k, r1) \<Rightarrow>
                    (case skip_ws r1 of
                       [] \<Rightarrow> None
                     | c1 # r2 \<Rightarrow>
                         if c1 \<noteq> CHR '':'' then None
                         else (case parse_value n (skip_ws r2) of
                                 None \<Rightarrow> None
                               | Some (v, r3) \<Rightarrow>
                                   (case skip_ws r3 of
                                      [] \<Rightarrow> None
                                    | c3 # r4 \<Rightarrow>
                                        if c3 = CHR ''}'' then Some ([(k, v)], r4)
                                        else if c3 = CHR '','' then
                                          map_option (\<lambda>(kvs, r5). ((k, v) # kvs, r5))
                                            (parse_members n (skip_ws r4))
                                        else None)))))"

definition json_loads :: "string \<Rightarrow> pyval option" where
  "json_loads s =
     (case parse_value (Suc (length s)) (skip_ws s) of
        None \<Rightarrow> None
      | Some (v, rest) \<Rightarrow> if skip_ws rest = [] then Some v else None)"

subsection \<open>The parameter \<open>q\<close>\<close>

text \<open>\<open>after_first sep s\<close> is the text after the first occurrence of \<open>sep\<close> in \<open>s\<close>.\<close>

fun after_first :: "string \<Rightarrow> string \<Rightarrow> string option" where
  "after_first sep [] = (if sep = [] then Some [] else None)"
| "after_first sep (c # cs) =
     (if take (length sep) (c # cs) = sep then Some (drop (length sep) (c # cs))
      else after_first sep cs)"

definition q_param :: "string \<Rightarrow> string option" where
  "q_param url = after_first ''?q='' url"

text \<open>
  \<open>urllib.parse.unquote_plus\<close>, the inverse of \<open>quote_plus\<close>: like \<open>unquote\<close>, after each
  plus sign was replaced by a space.
\<close>

definition unquote_plus :: "string \<Rightarrow> string option" where
  "unquote_plus s = unquote (map (\<lambda>c. if c = CHR ''+'' then CHR '' '' else c) s)"

definition decode_q :: "string \<Rightarrow> pyval option" where
  "decode_q url =
     (case q_param url of
        None \<Rightarrow> None
      | Some v \<Rightarrow> (case unquote v of None \<Rightarrow> None | Some t \<Rightarrow> json_loads t))"

text \<open>The same with \<open>unquote_plus\<close> in the place of \<open>unquote\<close>.\<close>

definition decode_q_plus :: "string \<Rightarrow> pyval option" where
  "decode_q_plus url =
     (case q_param url of
        None \<Rightarrow> None
      | Some v \<Rightarrow> (case unquote_plus v of None \<Rightarrow> None | Some t \<Rightarrow> json_loads t))"

section \<open>Exceptions, the outside world and the document tree\<close>

text \<open>
  Every handler of the scraper is \<open>except Exception\<close>. It catches the errors whose class
  derives from \<open>Exception\<close> (\<open>Exc\<close>, with the class name) and lets through those that
  derive from \<open>BaseException\<close> only (\<open>BaseExc\<close>: \<open>asyncio.CancelledError\<close>,
  \<open>KeyboardInterrupt\<close>, \<open>SystemExit\<close>).
\<close>

datatype exn = Exc string | BaseExc string

text \<open>
  \<open>_build_search_url\<close> as a call that can raise: \<open>str(congress)\<close> for an integer
  congress, and \<open>json.dumps\<close> for the page, which is in the query when it is above 1.
  Where neither raises, the URL is \<open>build_search_url\<close>.
\<close>

definition build_search_url_checked :: "congress_arg \<Rightarrow> string \<Rightarrow> int \<Rightarrow> exn + string" where
  "build_search_url_checked congress source page =
     (if (case congress of CongressInt i \<Rightarrow> str_too_long i | CongressStr s \<Rightarrow> False)
         \<or> (page > 1 \<and> str_too_long page)
      then Inl (Exc ''ValueError'')
      else Inr (build_search_url congress source page))"

text \<open>
  What the run does to the outside world is recorded in order: opening and closing the
  \<open>aiohttp.ClientSession\<close>, and each GET with its URL. \<open>ticks\<close> counts the calls of
  \<open>datetime.now()\<close>. Log lines are not modelled.
\<close>

datatype event = SessionOpen | SessionClose | HttpGet string

record world =
  trace :: "event list"
  ticks :: nat

text \<open>
  What the outside world answers: \<open>http_get n url\<close> is the outcome of
  \<open>session.get(url)\<close> followed by \<open>response.text()\<close> when \<open>n\<close> events came before it,
  the page text or the exception raised; \<open>bs_parse\<close> is
  \<open>BeautifulSoup(html, 'html.parser')\<close>; \<open>now_iso n\<close> is the text of the \<open>n\<close>-th reading of
  \<open>datetime.now().isoformat()\<close>.
\<close>

datatype node = Text string | Tag string "string list" "(string \<times> string) list" "node list"

record env =
  http_get :: "nat \<Rightarrow> string \<Rightarrow> exn + string"
  bs_parse :: "string \<Rightarrow> exn + node"
  now_iso :: "nat \<Rightarrow> string"

definition datetime_now :: "env \<Rightarrow> world \<Rightarrow> string \<times> world" where
  "datetime_now e w = (now_iso e (ticks w), w\<lparr>ticks := Suc (ticks w)\<rparr>)"

definition session_get :: "env \<Rightarrow> string \<Rightarrow> world \<Rightarrow> (exn + string) \<times> world" where
  "session_get e url w = (http_get e (length (trace w)) url, w\<lparr>trace := trace w @ [HttpGet url]\<rparr>)"

definition session_close :: "world \<Rightarrow> world" where
  "session_close w = w\<lparr>trace := trace w @ [SessionClose]\<rparr>"

subsection \<open>The part of BeautifulSoup the scrapers use\<close>

text \<open>
  A \<open>Tag name classes attrs children\<close> is an element with its class list and its other
  attributes. \<open>find_all\<close> returns the matching descendants in document order,
  \<open>find\<close> the first of them or \<open>None\<close>; \<open>.text\<close> joins all the text below a node.
\<close>

fun descendants :: "node \<Rightarrow> node list" where
  "descendants (Text s) = []"
| "descendants (Tag name classes attrs children) =
     concat (map (\<lambda>c. c # descendants c) children)"

fun get_text :: "node \<Rightarrow> string" where
  "get_text (Text s) = s"
| "get_text (Tag name classes attrs children) = concat (map get_text children)"

fun matches :: "string \<Rightarrow> string option \<Rightarrow> node \<Rightarrow> bool" where
  "matches name cls (Text s) = False"
| "matches name cls (Tag name' classes attrs children) =
     (name' = name \<and> (case cls of None \<Rightarrow> True | Some c \<Rightarrow> c \<in> set classes))"

definition find_all :: "node \<Rightarrow> string \<Rightarrow> string option \<Rightarrow> node list" where
  "find_all n name cls = filter (matches name cls) (descendants n)"

definition find_elem :: "node \<Rightarrow> string \<Rightarrow> string option \<Rightarrow> node option" where
  "find_elem n name cls = (case find_all n name cls of [] \<Rightarrow> None | x # _ \<Rightarrow> Some x)"

fun get_attr :: "node \<Rightarrow> string \<Rightarrow> string option" where
  "get_attr (Text s) k = None"
| "get_attr (Tag name classes attrs children) k = map_of attrs k"

text \<open>\<open>str.strip()\<close> removes the white space of \<open>str.isspace\<close> at both ends.\<close>

definition isspace :: "char \<Rightarrow> bool" where
  "isspace c =
     (let n = (of_char c :: nat)
      in (9 \<le> n \<and> n \<le> 13) \<or> (28 \<le> n \<and> n \<le> 32) \<or> n = 133 \<or> n = 160)"

definition strip :: "string \<Rightarrow> string" where
  "strip s = rev (dropWhile isspace (rev (dropWhile isspace s)))"

definition text_strip :: "node \<Rightarrow> string" where
  "text_strip n = strip (get_text n)"

section \<open>The legislation scraper\<close>

subsection \<open>Search results\<close>

text \<open>
  The body of the \<open>try\<close> block run on one listing item, the same in
  \<open>LegislationScraper.parse_search_results\<close> and in \<open>_parse_bill_item\<close> of the older
  scraper. \<open>Inr None\<close> is the item left out for want of its title element (\<open>continue\<close>,
  \<open>return None\<close>); \<open>link.text\<close> on a missing link raises \<open>AttributeError\<close> and
  \<open>link['href']\<close> without that attribute raises \<open>KeyError\<close>.
\<close>

datatype item_error = AttributeError | KeyError

definition parse_item :: "env \<Rightarrow> node \<Rightarrow> world \<Rightarrow> (item_error + pydict option) \<times> world" where
  "parse_item e item w =
     (case find_elem item ''h2'' (Some ''item-name'') of
        None \<Rightarrow> (Inr None, w)
      | Some title_elem \<Rightarrow>
          (case find_elem title_elem ''a'' None of
             None \<Rightarrow> (Inl AttributeError, w)
           | Some link \<Rightarrow>
               (let bill_number = text_strip link
                in case get_attr link ''href'' of
                     None \<Rightarrow> (Inl KeyError, w)
                   | Some href \<Rightarrow>
                       (let bill_url = ''https://www.congress.gov'' @ href;
                            title = (case find_elem item ''p'' (Some ''item-description'') of
                                       Some description \<Rightarrow> text_strip description
                                     | None \<Rightarrow> ''No title available'');
                            status = (case find_elem item ''span'' (Some ''status'') of
                                        Some status_elem \<Rightarrow> text_strip status_elem
                                      | None \<Rightarrow> ''Status unknown'');
                            sponsor = (case find_elem item ''span'' (Some ''sponsor'') of
                                         Some sponsor_elem \<Rightarrow> text_strip sponsor_elem
                                       | None \<Rightarrow> ''No sponsor info'');
                            (stamp, w') = datetime_now e w
                        in (Inr (Some [(''bill_number'', PStr bill_number),
                                       (''title'', PStr title),
                                       (''status'', PStr status),
                                       (''sponsor'', PStr sponsor),
                                       (''url'', PStr bill_url),
                                       (''scraped_at'', PStr stamp)]), w')))))"

text \<open>
  The items that give no record: those without title element, those whose title element
  has no link, and those whose link has no \<open>href\<close>.
\<close>

definition lacks_title_link :: "node \<Rightarrow> bool" where
  "lacks_title_link item =
     (case find_elem item ''h2'' (Some ''item-name'') of
        None \<Rightarrow> True
      | Some title_elem \<Rightarrow>
          (case find_elem title_elem ''a'' None of
             None \<Rightarrow> True
           | Some link \<Rightarrow> get_attr link ''href'' = None))"

text \<open>\<open>_parse_bill_item\<close> (scraper.py): any exception is logged and gives \<open>None\<close>.\<close>

definition parse_bill_item :: "env \<Rightarrow> node \<Rightarrow> world \<Rightarrow> pydict option \<times> world" where
  "parse_bill_item e item w =
     (case parse_item e item w of
        (Inr r, w') \<Rightarrow> (r, w')
      | (Inl err, w') \<Rightarrow> (None, w'))"

text \<open>
  The loop over the items of \<open>parse_search_results\<close>: an item that raises is logged and
  skipped, one without title element is skipped, every other appends its record.
\<close>

fun parse_items :: "env \<Rightarrow> node list \<Rightarrow> world \<Rightarrow> pydict list \<times> world" where
  "parse_items e [] w = ([], w)"
| "parse_items e (item # items) w =
     (case parse_item e item w of
        (Inr (Some r), w') \<Rightarrow> (let (rs, w'') = parse_items e items w' in (r # rs, w''))
      | (Inr None, w') \<Rightarrow> parse_items e items w'
      | (Inl err, w') \<Rightarrow> parse_items e items w')"

definition parse_search_results :: "env \<Rightarrow> string \<Rightarrow> world \<Rightarrow> (exn + pydict list) \<times> world" where
  "parse_search_results e html w =
     (case bs_parse e html of
        Inl x \<Rightarrow> (Inl x, w)
      | Inr soup \<Rightarrow>
          (let items = find_all soup ''li'' (Some ''expanded'');
               (results, w') = parse_items e items w
           in (Inr results, w')))"

subsection \<open>Detail pages\<close>

definition extract_committees :: "node \<Rightarrow> string list" where
  "extract_committees soup =
     (case find_elem soup ''div'' (Some ''committees'') of
        Some committee_div \<Rightarrow> map text_strip (find_all committee_div ''li'' None)
      | None \<Rightarrow> [])"

definition extract_actions :: "node \<Rightarrow> pydict list" where
  "extract_actions soup =
     (case find_elem soup ''table'' (Some ''actions'') of
        Some action_table \<Rightarrow>
          concat (map (\<lambda>row. let cols = find_all row ''td'' None
                             in if length cols \<ge> 2
                                then [[(''date'', PStr (text_strip (cols ! 0))),
                                       (''action'', PStr (text_strip (cols ! 1)))]]
                                else [])
                      (drop 1 (find_all action_table ''tr'' None)))
      | None \<Rightarrow> [])"

definition extract_cosponsors :: "node \<Rightarrow> string list" where
  "extract_cosponsors soup =
     (case find_elem soup ''div'' (Some ''cosponsors'') of
        Some cosponsor_div \<Rightarrow> map text_strip (find_all cosponsor_div ''li'' None)
      | None \<Rightarrow> [])"

definition extract_last_action_date :: "node \<Rightarrow> string option" where
  "extract_last_action_date soup =
     map_option text_strip (find_elem soup ''span'' (Some ''last-action''))"

definition extract_introduced_date :: "node \<Rightarrow> string option" where
  "extract_introduced_date soup =
     map_option text_strip (find_elem soup ''span'' (Some ''introduced-date''))"

definition opt_str :: "string option \<Rightarrow> pyval" where
  "opt_str x = (case x of None \<Rightarrow> PNone | Some s \<Rightarrow> PStr s)"

text \<open>The handler \<open>except Exception: ... return {}\<close> of \<open>scrape_item\<close>.\<close>

definition item_handler :: "exn \<Rightarrow> world \<Rightarrow> (exn + pydict) \<times> world" where
  "item_handler x w = (case x of Exc m \<Rightarrow> (Inr [], w) | BaseExc m \<Rightarrow> (Inl x, w))"

definition scrape_item :: "env \<Rightarrow> string \<Rightarrow> world \<Rightarrow> (exn + pydict) \<times> world" where
  "scrape_item e url w =
     (let (response, w1) = session_get e url w
      in case response of
           Inl x \<Rightarrow> item_handler x w1
         | Inr html \<Rightarrow>
             (case bs_parse e html of
                Inl x \<Rightarrow> item_handler x w1
              | Inr soup \<Rightarrow>
                  (let committees = extract_committees soup;
                       actions = extract_actions soup;
                       cosponsors = extract_cosponsors soup;
                       last_action_date = extract_last_action_date soup;
                       introduced_date = extract_introduced_date soup;
                       (stamp, w2) = datetime_now e w1
                   in (Inr [(''url'', PStr url),
                            (''committees'', PList (map PStr committees)),
                            (''actions'', PList (map PDict actions)),
                            (''cosponsors'', PList (map PStr cosponsors)),
                            (''last_action_date'', opt_str last_action_date),
                            (''introduced_date'', opt_str introduced_date),
                            (''scraped_at'', PStr stamp)], w2))))"

section \<open>The orchestrator\<close>

record scraping_job =
  congress :: int
  source :: string
  page :: int

text \<open>
  The registry \<open>self.scrapers\<close> maps a source tag to its scraper object;
  \<open>LegislationScraper\<close> is the only class of scrapers there is.
\<close>

datatype scraper = LegislationScraper

record congress_scraper =
  max_workers :: int
  scrapers :: "(string \<times> scraper) list"

text \<open>\<open>CongressScraper(max_workers)\<close>: the registry starts empty.\<close>

definition new_scraper :: "int \<Rightarrow> congress_scraper" where
  "new_scraper n = \<lparr>max_workers = n, scrapers = []\<rparr>"

definition init_session :: "congress_scraper \<Rightarrow> world \<Rightarrow> congress_scraper \<times> world" where
  "init_session self w =
     (self\<lparr>scrapers := dict_setitem ''legislation'' LegislationScraper (scrapers self)\<rparr>,
      w\<lparr>trace := trace w @ [SessionOpen]\<rparr>)"

text \<open>
  The loop of \<open>_scrape_page\<close> over the parsed items: \<open>item['url']\<close> raises \<open>KeyError\<close>
  when the key is missing; \<open>scrape_item\<close> turns a value that is no URL string into the
  empty mapping through its own handler; the details are merged with \<open>item.update\<close>.
\<close>

fun detail_items :: "env \<Rightarrow> pydict list \<Rightarrow> world \<Rightarrow> (exn + pydict list) \<times> world" where
  "detail_items e [] w = (Inr [], w)"
| "detail_items e (item # items) w =
     (case map_of item ''url'' of
        None \<Rightarrow> (Inl (Exc ''KeyError''), w)
      | Some u \<Rightarrow>
          (case (case u of PStr url \<Rightarrow> scrape_item e url w | _ \<Rightarrow> (Inr [], w)) of
             (Inl x, w1) \<Rightarrow> (Inl x, w1)
           | (Inr details, w1) \<Rightarrow>
               (case detail_items e items w1 of
                  (Inl x, w2) \<Rightarrow> (Inl x, w2)
                | (Inr rest, w2) \<Rightarrow> (Inr (dict_update item details # rest), w2))))"

text \<open>The body of the \<open>try\<close> block of \<open>_scrape_page\<close>, for the URL already built.\<close>

definition scrape_page_try ::
  "env \<Rightarrow> (string \<times> scraper) list \<Rightarrow> scraping_job \<Rightarrow> string \<Rightarrow> world
     \<Rightarrow> (exn + pydict list) \<times> world" where
  "scrape_page_try e registry job url w =
     (let (response, w1) = session_get e url w
      in case response of
           Inl x \<Rightarrow> (Inl x, w1)
         | Inr html \<Rightarrow>
             (case map_of registry (source job) of
                None \<Rightarrow> (Inr [], w1)
              | Some LegislationScraper \<Rightarrow>
                  (case parse_search_results e html w1 of
                     (Inl x, w2) \<Rightarrow> (Inl x, w2)
                   | (Inr items, w2) \<Rightarrow> detail_items e items w2)))"

text \<open>
  \<open>_scrape_page\<close>: the URL is built before the \<open>try\<close> block, so an exception of
  that call leaves the function; the handler turns an exception derived from
  \<open>Exception\<close> that the block raises into the empty list, after it has written the
  page and the congress of the job into its log line. A congress too long to be
  written has stopped the function at the URL already, and so has a page above 1; a
  page of 1 or less that is too long makes the log line raise \<open>ValueError\<close> inside
  the handler.
\<close>

definition scrape_page ::
  "env \<Rightarrow> (string \<times> scraper) list \<Rightarrow> scraping_job \<Rightarrow> world \<Rightarrow> (exn + pydict list) \<times> world" where
  "scrape_page e registry job w =
     (case build_search_url_checked (CongressInt (congress job)) (source job) (page job) of
        Inl x \<Rightarrow> (Inl x, w)
      | Inr url \<Rightarrow>
          (case scrape_page_try e registry job url w of
             (Inl (Exc m), w') \<Rightarrow>
               if str_too_long (page job) then (Inl (Exc ''ValueError''), w')
               else (Inr [], w')
           | r \<Rightarrow> r))"

text \<open>\<open>range(start, stop, -1)\<close>.\<close>

function range_down :: "int \<Rightarrow> int \<Rightarrow> int list" where
  "range_down i stop = (if i > stop then i # range_down (i - 1) stop else [])"
  by pat_completeness auto
termination
  by (relation "measure (\<lambda>(i, stop). nat (i - stop))") auto

text \<open>
  The jobs put in the queue before the loop. \<open>sources\<close> lists the elements of the set
  of source tags in the order in which the set is iterated.
\<close>

definition initial_jobs :: "int \<Rightarrow> int \<Rightarrow> string list \<Rightarrow> scraping_job list" where
  "initial_jobs start_congress end_congress sources =
     concat (map (\<lambda>c. map (\<lambda>s. \<lparr>congress = c, source = s, page = 1\<rparr>) sources)
                 (range_down start_congress (end_congress - 1)))"

text \<open>
  The \<open>while not job_queue.empty()\<close> loop: the job at the head of the queue is taken,
  its items extend the results, and when there are items the job of the same congress
  and source for the next page is put at the end of the queue. The loop need not end,
  so its value is an option; an exception that \<open>_scrape_page\<close> lets through ends it
  at once.
\<close>

partial_function (option) scrape_loop ::
  "env \<Rightarrow> (string \<times> scraper) list \<Rightarrow> scraping_job list \<Rightarrow> pydict list \<Rightarrow> world
     \<Rightarrow> ((exn + pydict list) \<times> world) option" where
  "scrape_loop e registry job_queue results w =
     (case job_queue of
        [] \<Rightarrow> Some (Inr results, w)
      | job # rest \<Rightarrow>
          (case scrape_page e registry job w of
             (Inl x, w') \<Rightarrow> Some (Inl x, w')
           | (Inr items, w') \<Rightarrow>
               scrape_loop e registry
                 (if items \<noteq> []
                  then rest @ [\<lparr>congress = congress job, source = source job,
                                page = page job + 1\<rparr>]
                  else rest)
                 (results @ items) w'))"

text \<open>
  A log of the turns of a run: each entry is a job with the items \<open>_scrape_page\<close>
  returned for it and the world it left, every turn starting in the world the turn
  before it left. \<open>log_end\<close> is the world after the last turn, and \<open>continuations\<close>
  lists, in the order of the log, the job for the next page of every entry with items.
\<close>

type_synonym turn = "scraping_job \<times> pydict list \<times> world"

fun log_fits :: "env \<Rightarrow> (string \<times> scraper) list \<Rightarrow> world \<Rightarrow> turn list \<Rightarrow> bool" where
  "log_fits e registry w [] = True"
| "log_fits e registry w ((job, items, w') # log) =
     (scrape_page e registry job w = (Inr items, w') \<and> log_fits e registry w' log)"

fun log_end :: "world \<Rightarrow> turn list \<Rightarrow> world" where
  "log_end w [] = w"
| "log_end w ((job, items, w') # log) = log_end w' log"

fun continuations :: "turn list \<Rightarrow> scraping_job list" where
  "continuations [] = []"
| "continuations ((job, items, w') # log) =
     (if items \<noteq> []
      then \<lparr>congress = congress job, source = source job, page = page job + 1\<rparr>
             # continuations log
      else continuations log)"

text \<open>
  \<open>scrape\<close>: the session is opened, the queue filled, the thread pool created
  (\<open>ThreadPoolExecutor\<close> raises \<open>ValueError\<close> unless \<open>max_workers\<close> is positive), the
  queue drained, and after the loop the session is closed.
\<close>

definition scrape ::
  "env \<Rightarrow> congress_scraper \<Rightarrow> int \<Rightarrow> int \<Rightarrow> string list \<Rightarrow> world
     \<Rightarrow> ((exn + pydict list) \<times> world) option" where
  "scrape e self start_congress end_congress sources w =
     (let (self1, w1) = init_session self w;
          job_queue = initial_jobs start_congress end_congress sources
      in if max_workers self1 \<le> 0 then Some (Inl (Exc ''ValueError''), w1)
         else (case scrape_loop e (scrapers self1) job_queue [] w1 of
                 None \<Rightarrow> None
               | Some (Inl x, w2) \<Rightarrow> Some (Inl x, w2)
               | Some (Inr results, w2) \<Rightarrow> Some (Inr results, session_close w2)))"

text \<open>
  The jobs the run treats as failed: the URL is built and the page number can be
  written in a log line, and the fetch of the search page raises an exception that is
  derived from \<open>Exception\<close>, or the source tag has no scraper in the registry, or
  the parsing of the page raises such an exception.
\<close>

definition job_fails :: "env \<Rightarrow> (string \<times> scraper) list \<Rightarrow> scraping_job \<Rightarrow> world \<Rightarrow> bool" where
  "job_fails e registry job w =
     (case build_search_url_checked (CongressInt (congress job)) (source job) (page job) of
        Inl x \<Rightarrow> False
      | Inr url \<Rightarrow>
          \<not> str_too_long (page job) \<and>
          (case http_get e (length (trace w)) url of
             Inl x \<Rightarrow> (case x of Exc m \<Rightarrow> True | BaseExc m \<Rightarrow> False)
           | Inr html \<Rightarrow>
               (case map_of registry (source job) of
                  None \<Rightarrow> True
                | Some sc \<Rightarrow>
                    (case bs_parse e html of
                       Inl x \<Rightarrow> (case x of Exc m \<Rightarrow> True | BaseExc m \<Rightarrow> False)
                     | Inr soup \<Rightarrow> False))))"

text \<open>
  A bound on the turns the loop still needs when no job of page \<open>n\<close> or more returns
  items: every queued job counts for the pages it has left, and one more.
\<close>

definition queue_weight :: "int \<Rightarrow> scraping_job list \<Rightarrow> nat" where
  "queue_weight n q = sum_list (map (\<lambda>j. Suc (nat (n - page j))) q)"

section \<open>Sample sites\<close>

text \<open>
  A listing page with one complete item, one item without title element and one item
  whose title has no link; a site that serves this page for every search URL and an
  empty document for every other URL; a site whose every request fails with a client
  error; and a site whose every request is cancelled.
\<close>

definition sample_item :: node where
  "sample_item =
     Tag ''li'' [''expanded''] []
       [Tag ''h2'' [''item-name''] [] [Tag ''a'' [] [(''href'', ''/bill/119/hr1'')] [Text '' H.R.1 '']],
        Tag ''span'' [''status''] [] [Text ''Introduced'']]"

definition no_heading :: node where
  "no_heading =
     Tag ''li'' [''expanded''] [] [Tag ''p'' [''item-description''] [] [Text ''no heading'']]"

definition no_link :: node where
  "no_link = Tag ''li'' [''expanded''] [] [Tag ''h2'' [''item-name''] [] [Text ''no link'']]"

definition sample_listing :: node where
  "sample_listing = Tag ''html'' [] [] [no_heading, sample_item, no_link]"

definition sample_site :: env where
  "sample_site =
     \<lparr>http_get = (\<lambda>n url. if take (length base_url) url = base_url then Inr ''listing''
                           else Inr ''detail''),
      bs_parse = (\<lambda>html. if html = ''listing'' then Inr sample_listing
                          else Inr (Tag ''html'' [] [] [])),
      now_iso = (\<lambda>n. ''T'' @ str_nat n)\<rparr>"

definition failing_site :: env where
  "failing_site =
     \<lparr>http_get = (\<lambda>n url. Inl (Exc ''ClientError'')),
      bs_parse = (\<lambda>html. Inr (Tag ''html'' [] [] [])),
      now_iso = (\<lambda>n. ''T'' @ str_nat n)\<rparr>"

definition cancelled_site :: env where
  "cancelled_site =
     \<lparr>http_get = (\<lambda>n url. Inl (BaseExc ''CancelledError'')),
      bs_parse = (\<lambda>html. Inr (Tag ''html'' [] [] [])),
      now_iso = (\<lambda>n. ''T'' @ str_nat n)\<rparr>"

text \<open>
  A site with a single page of results: the first search page of congress 119 lists
  the sample items and every other URL gives an empty document.
\<close>

definition one_page_site :: env where
  "one_page_site =
     \<lparr>http_get = (\<lambda>n url. if url = build_search_url (CongressInt 119) ''legislation'' 1
                           then Inr ''listing'' else Inr ''detail''),
      bs_parse = (\<lambda>html. if html = ''listing'' then Inr sample_listing
                          else Inr (Tag ''html'' [] [] [])),
      now_iso = (\<lambda>n. ''T'' @ str_nat n)\<rparr>"

definition world0 :: world where
  "world0 = \<lparr>trace = [], ticks = 0\<rparr>"

definition job0 :: scraping_job where
  "job0 = \<lparr>congress = 119, source = ''legislation'', page = 1\<rparr>"

text \<open>The record of the complete sample item as the search page gives it.\<close>

definition sample_parsed :: pydict where
  "sample_parsed =
     [(''bill_number'', PStr ''H.R.1''), (''title'', PStr ''No title available''),
      (''status'', PStr ''Introduced''), (''sponsor'', PStr ''No sponsor info''),
      (''url'', PStr ''https://www.congress.gov/bill/119/hr1''),
      (''scraped_at'', PStr ''T0'')]"

definition registry0 :: "(string \<times> scraper) list" where
  "registry0 = [(''legislation'', LegislationScraper)]"

text \<open>The record of the complete sample item after its detail page was merged in.\<close>

definition sample_record :: pydict where
  "sample_record =
     [(''bill_number'', PStr ''H.R.1''), (''title'', PStr ''No title available''),
      (''status'', PStr ''Introduced''), (''sponsor'', PStr ''No sponsor info''),
      (''url'', PStr ''https://www.congress.gov/bill/119/hr1''),
      (''scraped_at'', PStr ''T1''), (''committees'', PList []),
      (''actions'', PList []), (''cosponsors'', PList []),
      (''last_action_date'', PNone), (''introduced_date'', PNone)]"

section \<open>Properties of the URL builder\<close>

lemma build_query_first_page:
  "p \<le> 1 \<Longrightarrow> build_query c s p = [(''congress'', PStr (congress_str c)), (''source'', PList [PStr s])]"
  by (simp add: build_query_def)

lemma build_query_later_page:
  "1 < p \<Longrightarrow> build_query c s p =
     [(''congress'', PStr (congress_str c)), (''source'', PList [PStr s]),
      (''pageSize'', PInt 100), (''page'', PInt p)]"
  by (simp add: build_query_def)

lemma quote_plus_q: "quote_plus ''q'' = ''q''"
  by code_simp

lemma build_search_url_q:
  "build_search_url c s p = base_url @ ''?q='' @ quote_plus (json_dumps (PDict (build_query c s p)))"
  by (simp add: build_search_url_def urlencode_def quote_plus_q)

lemma lt10_cases: "n < 10 \<Longrightarrow> n \<in> {0, 1, 2, 3, 4, 5, 6, 7, 8, 9::nat}"
  by auto

lemma digit_char_code: "n < 10 \<Longrightarrow> (of_char (digit_char n) :: nat) = 48 + n"
  by (drule lt10_cases) (auto simp: digit_char_def)

lemma is_digit_digit_char: "n < 10 \<Longrightarrow> is_digit (digit_char n)"
  by (simp add: is_digit_def digit_char_code)

lemma digit_char_zero_iff: "n < 10 \<Longrightarrow> digit_char n = CHR ''0'' \<longleftrightarrow> n = 0"
  by (drule lt10_cases) (auto simp: digit_char_def)

declare str_nat.simps [simp del]

lemma str_nat_digits: "\<forall>c \<in> set (str_nat n). is_digit c"
proof (induction n rule: str_nat.induct)
  case (1 n)
  show ?case
  proof (cases "n < 10")
    case True
    then show ?thesis by (subst str_nat.simps) (simp add: is_digit_digit_char)
  next
    case False
    with 1 show ?thesis by (subst str_nat.simps) (simp add: is_digit_digit_char)
  qed
qed

lemma str_nat_not_Nil: "str_nat n \<noteq> []"
  by (subst str_nat.simps) simp

lemma dec_value_snoc: "dec_value (ds @ [d]) = 10 * dec_value ds + ((of_char d :: nat) - 48)"
  by (simp add: dec_value_def)

lemma dec_value_str_nat: "dec_value (str_nat n) = n"
proof (induction n rule: str_nat.induct)
  case (1 n)
  show ?case
  proof (cases "n < 10")
    case True
    then show ?thesis by (subst str_nat.simps) (simp add: dec_value_def digit_char_code)
  next
    case False
    with 1 show ?thesis
      by (subst str_nat.simps) (simp add: dec_value_snoc digit_char_code)
  qed
qed

lemma hd_str_nat_zero: "hd (str_nat n) = CHR ''0'' \<Longrightarrow> n = 0"
proof (induction n rule: str_nat.induct)
  case (1 n)
  show ?case
  proof (cases "n < 10")
    case True
    with 1(2) show ?thesis by (subst (asm) str_nat.simps) (simp add: digit_char_zero_iff)
  next
    case False
    with 1(2) have "hd (str_nat (n div 10)) = CHR ''0''"
      by (subst (asm) str_nat.simps) (simp add: str_nat_not_Nil)
    with 1(1) False have "n div 10 = 0" by simp
    with False show ?thesis by simp
  qed
qed

lemma length_str_nat_zero: "length (str_nat 0) = 1"
  by (subst str_nat.simps) simp

lemma takeWhile_digits: "number_ends rest \<Longrightarrow> takeWhile is_digit (str_nat n @ rest) = str_nat n"
  using str_nat_digits [of n]
  by (cases rest) (auto simp: number_ends_def)

lemma dropWhile_digits: "number_ends rest \<Longrightarrow> dropWhile is_digit (str_nat n @ rest) = rest"
  using str_nat_digits [of n]
  by (cases rest) (auto simp: number_ends_def)

lemma scan_nat_str_nat: "number_ends rest \<Longrightarrow> scan_nat (str_nat n @ rest) = Some (n, rest)"
proof -
  assume e: "number_ends rest"
  have z: "\<not> (hd (str_nat n) = CHR ''0'' \<and> length (str_nat n) > 1)"
    using hd_str_nat_zero [of n] length_str_nat_zero by auto
  from e have r: "\<not> (rest \<noteq> [] \<and> hd rest \<in> set ''.eE'')"
    by (auto simp: number_ends_def)
  show ?thesis
    unfolding scan_nat_def Let_def takeWhile_digits [OF e] dropWhile_digits [OF e]
    using z r by (simp add: str_nat_not_Nil dec_value_str_nat)
qed

lemma hd_str_nat_not_minus: "hd (str_nat n) \<noteq> CHR ''-''"
  using str_nat_digits [of n] str_nat_not_Nil [of n]
  by (cases "str_nat n") (auto simp: is_digit_def)

lemma scan_int_str_int: "number_ends rest \<Longrightarrow> scan_int (str_int i @ rest) = Some (i, rest)"
proof (cases "i < 0")
  case True
  assume "number_ends rest"
  with True show ?thesis
    by (simp add: scan_int_def str_int_def scan_nat_str_nat)
next
  case False
  assume e: "number_ends rest"
  obtain c cs where s: "str_nat (nat i) = c # cs"
    using str_nat_not_Nil [of "nat i"] by (cases "str_nat (nat i)") auto
  with hd_str_nat_not_minus [of "nat i"] have c: "c \<noteq> CHR ''-''" by simp
  have "scan_nat (str_nat (nat i) @ rest) = Some (nat i, rest)"
    using e by (rule scan_nat_str_nat)
  with False s c show ?thesis
    by (simp add: scan_int_def str_int_def)
qed

text \<open>
  Claim C2. The query serialised into the parameter \<open>q\<close> has the keys \<open>pageSize\<close> and
  \<open>page\<close> exactly when the page is greater than 1, then with the values 100 and the
  page; for a page of 1 (or less) the query is the two-key dictionary of \<open>congress\<close>
  and \<open>source\<close> alone, so neither key occurs in the JSON text. The URL is the base
  URL, \<open>?q=\<close> and the quoted JSON text of that query.
\<close>

theorem page_keys_iff:
  "(''pageSize'' \<in> set (dict_keys (build_query c s p)) \<longleftrightarrow> 1 < p)
   \<and> (''page'' \<in> set (dict_keys (build_query c s p)) \<longleftrightarrow> 1 < p)
   \<and> (1 < p \<longrightarrow> map_of (build_query c s p) ''pageSize'' = Some (PInt 100)
                \<and> map_of (build_query c s p) ''page'' = Some (PInt p))
   \<and> (p \<le> 1 \<longrightarrow> build_query c s p =
                  [(''congress'', PStr (congress_str c)), (''source'', PList [PStr s])])
   \<and> build_search_url c s p =
       base_url @ ''?q='' @ quote_plus (json_dumps (PDict (build_query c s p)))"
proof (cases "1 < p")
  case True
  then show ?thesis
    using build_search_url_q [of c s p] by (simp add: build_query_later_page dict_keys_def)
next
  case False
  then show ?thesis
    using build_search_url_q [of c s p] by (simp add: build_query_first_page dict_keys_def)
qed

theorem page_keys_iff_witness:
  "(1 < (2::int)
      \<and> map_of (build_query (CongressInt 118) ''comreports'' 2) ''pageSize'' = Some (PInt 100)
      \<and> map_of (build_query (CongressInt 118) ''comreports'' 2) ''page'' = Some (PInt 2))
   \<and> ((1::int) \<le> 1
      \<and> build_query (CongressInt 119) ''legislation'' 1 =
          [(''congress'', PStr (congress_str (CongressInt 119))),
           (''source'', PList [PStr ''legislation''])])"
  using page_keys_iff [of "CongressInt 118" "''comreports''" 2]
    page_keys_iff [of "CongressInt 119" "''legislation''" 1]
  by simp

text \<open>
  Claim C3. The query maps \<open>congress\<close> to the string form of the argument, a string
  argument such as \<open>all\<close> as it is and an integer as its decimal text (which reads
  back as that integer), and maps \<open>source\<close> to the list of the one source tag.
\<close>

theorem query_congress_source:
  "map_of (build_query c s p) ''congress'' = Some (PStr (congress_str c))
   \<and> map_of (build_query c s p) ''source'' = Some (PList [PStr s])
   \<and> congress_str (CongressStr t) = t
   \<and> congress_str (CongressInt i) = str_int i
   \<and> scan_int (str_int i) = Some (i, [])"
proof -
  have "number_ends []" by (simp add: number_ends_def)
  then have "scan_int (str_int i @ []) = Some (i, [])" by (rule scan_int_str_int)
  then show ?thesis
    by (cases "1 < p") (simp_all add: build_query_later_page build_query_first_page congress_str_def)
qed

theorem query_congress_source_witness:
  "map_of (build_query (CongressStr ''all'') ''legislation'' 1) ''congress'' = Some (PStr ''all'')
   \<and> map_of (build_query (CongressInt 119) ''legislation'' 1) ''congress'' = Some (PStr ''119'')
   \<and> map_of (build_query (CongressInt 119) ''legislation'' 1) ''source''
       = Some (PList [PStr ''legislation''])"
proof -
  have e: "str_int 119 = ''119''" by code_simp
  show ?thesis
    using query_congress_source [of "CongressStr ''all''" "''legislation''" 1 "''all''" 119]
      query_congress_source [of "CongressInt 119" "''legislation''" 1 "''all''" 119]
    by (simp add: e)
qed

section \<open>Properties of the job queue\<close>

declare range_down.simps [simp del]

lemma range_down_upto: "range_down i stop = rev [stop + 1..i]"
proof (induction i stop rule: range_down.induct)
  case (1 i stop)
  show ?case
  proof (cases "i > stop")
    case True
    with 1 have "range_down i stop = i # rev [stop + 1..i - 1]"
      by (subst range_down.simps) simp
    also from True have "\<dots> = rev [stop + 1..i]"
      by (simp add: upto_rec2)
    finally show ?thesis .
  next
    case False
    then show ?thesis by (subst range_down.simps) simp
  qed
qed

lemma set_range_down: "set (range_down i (stop - 1)) = {stop..i}"
  by (simp add: range_down_upto)

lemma distinct_range_down: "distinct (range_down i stop)"
  by (simp add: range_down_upto)

lemma distinct_jobs:
  "distinct cs \<Longrightarrow> distinct srcs \<Longrightarrow>
   distinct (concat (map (\<lambda>c. map (\<lambda>s. \<lparr>congress = c, source = s, page = 1\<rparr>) srcs) cs))"
  by (induction cs) (auto simp: distinct_map inj_on_def)

lemma set_jobs:
  "set (concat (map (\<lambda>c. map (\<lambda>s. \<lparr>congress = c, source = s, page = 1\<rparr>) srcs) cs)) =
   (\<lambda>(c, s). \<lparr>congress = c, source = s, page = 1\<rparr>) ` (set cs \<times> set srcs)"
  by (induction cs) auto

lemma congress_jobs:
  "map congress (concat (map (\<lambda>c. map (\<lambda>s. \<lparr>congress = c, source = s, page = 1\<rparr>) srcs) cs)) =
   concat (map (\<lambda>c. replicate (length srcs) c) cs)"
  by (induction cs) (auto simp: map_replicate_const comp_def)

lemma scrape_loop_empty: "scrape_loop e reg [] results w = Some (Inr results, w)"
  by (subst scrape_loop.simps) simp

lemma scrape_loop_step:
  "scrape_page e reg job w = (Inr items, w') \<Longrightarrow>
   scrape_loop e reg (job # rest) results w =
     scrape_loop e reg
       (if items \<noteq> []
        then rest @ [\<lparr>congress = congress job, source = source job, page = page job + 1\<rparr>]
        else rest)
       (results @ items) w'"
  by (subst scrape_loop.simps) simp

lemma scrape_loop_raise:
  "scrape_page e reg job w = (Inl x, w') \<Longrightarrow>
   scrape_loop e reg (job # rest) results w = Some (Inl x, w')"
  by (subst scrape_loop.simps) simp

text \<open>
  Claim C7. For a set of sources (listed without repetition) the initial queue holds
  each job once, its jobs are exactly those of page 1 for a congress from
  \<open>start_congress\<close> down to \<open>end_congress\<close> and a requested source, the congress numbers
  come in descending order, and no job has another page. When \<open>start_congress\<close> is
  below \<open>end_congress\<close> the queue is empty and \<open>scrape\<close>, on a scraper with a positive
  worker budget, opens and closes the session and returns the empty list.
\<close>

theorem initial_jobs_exact:
  assumes "distinct sources" and "0 < max_workers self"
  shows "distinct (initial_jobs s e sources)
    \<and> set (initial_jobs s e sources) =
        (\<lambda>(c, src). \<lparr>congress = c, source = src, page = 1\<rparr>) ` ({e..s} \<times> set sources)
    \<and> map congress (initial_jobs s e sources) =
        concat (map (\<lambda>c. replicate (length sources) c) (rev [e..s]))
    \<and> (\<forall>j \<in> set (initial_jobs s e sources). page j = 1)
    \<and> (s < e \<longrightarrow> initial_jobs s e sources = []
          \<and> scrape env self s e sources w =
              Some (Inr [], w\<lparr>trace := trace w @ [SessionOpen, SessionClose]\<rparr>))"
proof -
  have d: "distinct (initial_jobs s e sources)"
    unfolding initial_jobs_def using assms(1) by (intro distinct_jobs distinct_range_down)
  have st: "set (initial_jobs s e sources) =
        (\<lambda>(c, src). \<lparr>congress = c, source = src, page = 1\<rparr>) ` ({e..s} \<times> set sources)"
    unfolding initial_jobs_def set_jobs set_range_down ..
  have o: "map congress (initial_jobs s e sources) =
        concat (map (\<lambda>c. replicate (length sources) c) (rev [e..s]))"
    unfolding initial_jobs_def congress_jobs by (simp add: range_down_upto)
  have p: "\<forall>j \<in> set (initial_jobs s e sources). page j = 1"
    unfolding st by auto
  have z: "s < e \<longrightarrow> initial_jobs s e sources = []
          \<and> scrape env self s e sources w =
              Some (Inr [], w\<lparr>trace := trace w @ [SessionOpen, SessionClose]\<rparr>)"
  proof
    assume "s < e"
    then have i: "initial_jobs s e sources = []"
      by (simp add: initial_jobs_def range_down_upto)
    with assms(2) show "initial_jobs s e sources = []
          \<and> scrape env self s e sources w =
              Some (Inr [], w\<lparr>trace := trace w @ [SessionOpen, SessionClose]\<rparr>)"
      by (simp add: scrape_def init_session_def scrape_loop_empty session_close_def)
  qed
  from d st o p z show ?thesis by blast
qed

theorem initial_jobs_exact_witness:
  "distinct [''legislation'', ''comreports''] \<and> 0 < max_workers (new_scraper 5)
   \<and> set (initial_jobs 119 118 [''legislation'', ''comreports'']) =
       (\<lambda>(c, src). \<lparr>congress = c, source = src, page = 1\<rparr>)
         ` ({118..119} \<times> set [''legislation'', ''comreports''])
   \<and> ((115::int) < 119 \<and> initial_jobs 115 119 [''legislation'', ''comreports''] = []
      \<and> scrape sample_site (new_scraper 5) 115 119 [''legislation'', ''comreports'']
            \<lparr>trace = [], ticks = 0\<rparr>
          = Some (Inr [], \<lparr>trace = [SessionOpen, SessionClose], ticks = 0\<rparr>))"
proof -
  have d: "distinct [''legislation'', ''comreports'']" by simp
  have m: "0 < max_workers (new_scraper 5)" by (simp add: new_scraper_def)
  show ?thesis
    using d m initial_jobs_exact [OF d m, of 119 118]
      initial_jobs_exact [OF d m, of 115 119 sample_site "\<lparr>trace = [], ticks = 0\<rparr>"]
    by simp
qed

section \<open>Properties of the legislation scraper\<close>

lemma parse_items_append:
  "parse_items e (xs @ ys) w =
     (fst (parse_items e xs w) @ fst (parse_items e ys (snd (parse_items e xs w))),
      snd (parse_items e ys (snd (parse_items e xs w))))"
  by (induction xs arbitrary: w) (auto split: prod.splits sum.splits option.splits)

lemma parse_item_skipped:
  "lacks_title_link item \<Longrightarrow>
   parse_item e item w = (Inr None, w) \<or> (\<exists>err. parse_item e item w = (Inl err, w))"
  by (auto simp: lacks_title_link_def parse_item_def split: option.splits)

lemma parse_items_skip:
  assumes "lacks_title_link item"
  shows "parse_items e (item # items) w = parse_items e items w"
  using parse_item_skipped [OF assms, of e w] by auto

lemma parse_items_skip_anywhere:
  assumes "lacks_title_link item"
  shows "parse_items e (before @ item # after) w = parse_items e (before @ after) w"
  unfolding parse_items_append parse_items_skip [OF assms] ..

lemma parse_bill_item_skip:
  assumes "lacks_title_link item"
  shows "parse_bill_item e item w = (None, w)"
  using assms
  by (auto simp: lacks_title_link_def parse_bill_item_def parse_item_def split: option.splits)

lemma parse_item_included:
  assumes "\<not> lacks_title_link item"
  shows "\<exists>link href. parse_item e item w =
    (Inr (Some
      [(''bill_number'', PStr (text_strip link)),
       (''title'', PStr (case find_elem item ''p'' (Some ''item-description'') of
                           Some description \<Rightarrow> text_strip description
                         | None \<Rightarrow> ''No title available'')),
       (''status'', PStr (case find_elem item ''span'' (Some ''status'') of
                            Some status_elem \<Rightarrow> text_strip status_elem
                          | None \<Rightarrow> ''Status unknown'')),
       (''sponsor'', PStr (case find_elem item ''span'' (Some ''sponsor'') of
                             Some sponsor_elem \<Rightarrow> text_strip sponsor_elem
                           | None \<Rightarrow> ''No sponsor info'')),
       (''url'', PStr (''https://www.congress.gov'' @ href)),
       (''scraped_at'', PStr (now_iso e (ticks w)))]),
     w\<lparr>ticks := Suc (ticks w)\<rparr>)"
  using assms
  by (auto simp: lacks_title_link_def parse_item_def datetime_now_def Let_def split: option.splits)

lemma parse_item_record:
  assumes "parse_item e item w = (Inr (Some r), w')"
  shows "\<not> lacks_title_link item"
  using assms
  by (auto simp: lacks_title_link_def parse_item_def datetime_now_def Let_def split: option.splits)

lemma parse_search_results_total:
  "bs_parse e html = Inr soup \<Longrightarrow>
   parse_search_results e html w =
     (Inr (fst (parse_items e (find_all soup ''li'' (Some ''expanded'')) w)),
      snd (parse_items e (find_all soup ''li'' (Some ''expanded'')) w))"
  by (simp add: parse_search_results_def Let_def split: prod.splits)

lemma parse_items_cons_record:
  "parse_item e item w = (Inr (Some r), w') \<Longrightarrow>
   parse_items e (item # items) w = (r # fst (parse_items e items w'), snd (parse_items e items w'))"
  by (simp split: prod.splits)

lemma sample_items:
  "find_all sample_listing ''li'' (Some ''expanded'') = [no_heading, sample_item, no_link]"
  by (simp add: sample_listing_def no_heading_def no_link_def sample_item_def find_all_def)

lemma sample_lacks:
  "lacks_title_link no_heading" "lacks_title_link no_link"
  by (simp_all add: lacks_title_link_def no_heading_def no_link_def find_elem_def find_all_def)

lemma sample_parse:
  "parse_items sample_site [sample_item] world0 = ([sample_parsed], \<lparr>trace = [], ticks = 1\<rparr>)"
  by code_simp

text \<open>
  Claim C9. Once the page text is parsed into a document, \<open>parse_search_results\<close>
  returns the records of its listing items and raises nothing. An item without title
  element, without link in the title or without \<open>href\<close> on the link gives no record, and
  the result (records and clock) is the same as if the item were not in the list,
  wherever it stands; \<open>_parse_bill_item\<close> returns \<open>None\<close> for it. Every other item gives
  a record whose title, status and sponsor are the stripped texts of their elements, or
  \<open>No title available\<close>, \<open>Status unknown\<close> and \<open>No sponsor info\<close> where the element is
  absent.
\<close>

theorem search_items_skipped_or_filled:
  assumes "bs_parse e html = Inr soup"
  shows "parse_search_results e html w =
           (Inr (fst (parse_items e (find_all soup ''li'' (Some ''expanded'')) w)),
            snd (parse_items e (find_all soup ''li'' (Some ''expanded'')) w))
    \<and> (lacks_title_link item \<longrightarrow>
          parse_items e (before @ item # after) w = parse_items e (before @ after) w
          \<and> parse_bill_item e item w = (None, w))
    \<and> (\<not> lacks_title_link item \<longrightarrow>
          (\<exists>link href.
             parse_items e (item # after) w =
               ([(''bill_number'', PStr (text_strip link)),
                 (''title'', PStr (case find_elem item ''p'' (Some ''item-description'') of
                                     Some description \<Rightarrow> text_strip description
                                   | None \<Rightarrow> ''No title available'')),
                 (''status'', PStr (case find_elem item ''span'' (Some ''status'') of
                                      Some status_elem \<Rightarrow> text_strip status_elem
                                    | None \<Rightarrow> ''Status unknown'')),
                 (''sponsor'', PStr (case find_elem item ''span'' (Some ''sponsor'') of
                                       Some sponsor_elem \<Rightarrow> text_strip sponsor_elem
                                     | None \<Rightarrow> ''No sponsor info'')),
                 (''url'', PStr (''https://www.congress.gov'' @ href)),
                 (''scraped_at'', PStr (now_iso e (ticks w)))]
               # fst (parse_items e after (w\<lparr>ticks := Suc (ticks w)\<rparr>)),
               snd (parse_items e after (w\<lparr>ticks := Suc (ticks w)\<rparr>)))))"
proof (intro conjI impI)
  show "parse_search_results e html w =
           (Inr (fst (parse_items e (find_all soup ''li'' (Some ''expanded'')) w)),
            snd (parse_items e (find_all soup ''li'' (Some ''expanded'')) w))"
    using assms by (rule parse_search_results_total)
next
  assume "lacks_title_link item"
  then show "parse_items e (before @ item # after) w = parse_items e (before @ after) w"
    by (rule parse_items_skip_anywhere)
next
  assume "lacks_title_link item"
  then show "parse_bill_item e item w = (None, w)"
    by (rule parse_bill_item_skip)
next
  assume "\<not> lacks_title_link item"
  from parse_item_included [OF this, of e w] obtain link href where
    "parse_item e item w =
    (Inr (Some
      [(''bill_number'', PStr (text_strip link)),
       (''title'', PStr (case find_elem item ''p'' (Some ''item-description'') of
                           Some description \<Rightarrow> text_strip description
                         | None \<Rightarrow> ''No title available'')),
       (''status'', PStr (case find_elem item ''span'' (Some ''status'') of
                            Some status_elem \<Rightarrow> text_strip status_elem
                          | None \<Rightarrow> ''Status unknown'')),
       (''sponsor'', PStr (case find_elem item ''span'' (Some ''sponsor'') of
                             Some sponsor_elem \<Rightarrow> text_strip sponsor_elem
                           | None \<Rightarrow> ''No sponsor info'')),
       (''url'', PStr (''https://www.congress.gov'' @ href)),
       (''scraped_at'', PStr (now_iso e (ticks w)))]),
     w\<lparr>ticks := Suc (ticks w)\<rparr>)"
    by blast
  from parse_items_cons_record [OF this, of after]
  show "\<exists>link href.
             parse_items e (item # after) w =
               ([(''bill_number'', PStr (text_strip link)),
                 (''title'', PStr (case find_elem item ''p'' (Some ''item-description'') of
                                     Some description \<Rightarrow> text_strip description
                                   | None \<Rightarrow> ''No title available'')),
                 (''status'', PStr (case find_elem item ''span'' (Some ''status'') of
                                      Some status_elem \<Rightarrow> text_strip status_elem
                                    | None \<Rightarrow> ''Status unknown'')),
                 (''sponsor'', PStr (case find_elem item ''span'' (Some ''sponsor'') of
                                       Some sponsor_elem \<Rightarrow> text_strip sponsor_elem
                                     | None \<Rightarrow> ''No sponsor info'')),
                 (''url'', PStr (''https://www.congress.gov'' @ href)),
                 (''scraped_at'', PStr (now_iso e (ticks w)))]
               # fst (parse_items e after (w\<lparr>ticks := Suc (ticks w)\<rparr>)),
               snd (parse_items e after (w\<lparr>ticks := Suc (ticks w)\<rparr>)))"
    by blast
qed

theorem search_items_skipped_or_filled_witness:
  "bs_parse sample_site ''listing'' = Inr sample_listing
   \<and> lacks_title_link no_heading \<and> lacks_title_link no_link
   \<and> parse_search_results sample_site ''listing'' world0 =
       (Inr [sample_parsed], \<lparr>trace = [], ticks = 1\<rparr>)"
proof -
  have b: "bs_parse sample_site ''listing'' = Inr sample_listing"
    by (simp add: sample_site_def)
  have "parse_items sample_site ([] @ no_heading # [sample_item, no_link]) world0
        = parse_items sample_site ([] @ [sample_item, no_link]) world0"
    using search_items_skipped_or_filled [OF b, of world0 no_heading "[]" "[sample_item, no_link]"]
      sample_lacks(1)
    by (elim conjE) (erule (1) impE, erule conjE, assumption)
  moreover have "parse_items sample_site ([sample_item] @ no_link # []) world0
        = parse_items sample_site ([sample_item] @ []) world0"
    using search_items_skipped_or_filled [OF b, of world0 no_link "[sample_item]" "[]"]
      sample_lacks(2)
    by blast
  ultimately have "parse_items sample_site [no_heading, sample_item, no_link] world0
        = ([sample_parsed], \<lparr>trace = [], ticks = 1\<rparr>)"
    by (simp only: append.simps sample_parse)
  moreover have "parse_search_results sample_site ''listing'' world0 =
      (Inr (fst (parse_items sample_site (find_all sample_listing ''li'' (Some ''expanded'')) world0)),
       snd (parse_items sample_site (find_all sample_listing ''li'' (Some ''expanded'')) world0))"
    using search_items_skipped_or_filled [OF b, of world0 no_heading "[]" "[]"] by blast
  ultimately have "parse_search_results sample_site ''listing'' world0 =
       (Inr [sample_parsed], \<lparr>trace = [], ticks = 1\<rparr>)"
    by (simp only: sample_items fst_conv snd_conv)
  with b sample_lacks show ?thesis by blast
qed

lemma map_of_dict_setitem:
  "map_of (dict_setitem k v d) k' = (if k' = k then Some v else map_of d k')"
  by (induction d) auto

lemma map_of_dict_update_other:
  "k \<notin> fst ` set e \<Longrightarrow> map_of (dict_update d e) k = map_of d k"
  by (induction d e rule: dict_update.induct) (auto simp: map_of_dict_setitem)

lemma dict_update_empty: "dict_update d [] = d"
  by simp

lemma scrape_item_ok:
  assumes "http_get e (length (trace w)) url = Inr html" and "bs_parse e html = Inr soup"
  shows "scrape_item e url w =
     (Inr [(''url'', PStr url),
           (''committees'', PList (map PStr (extract_committees soup))),
           (''actions'', PList (map PDict (extract_actions soup))),
           (''cosponsors'', PList (map PStr (extract_cosponsors soup))),
           (''last_action_date'', opt_str (extract_last_action_date soup)),
           (''introduced_date'', opt_str (extract_introduced_date soup)),
           (''scraped_at'', PStr (now_iso e (ticks w)))],
      w\<lparr>trace := trace w @ [HttpGet url], ticks := Suc (ticks w)\<rparr>)"
  using assms by (simp add: scrape_item_def session_get_def datetime_now_def)

lemma scrape_item_get_fails:
  assumes "http_get e (length (trace w)) url = Inl (Exc m)"
  shows "scrape_item e url w = (Inr [], w\<lparr>trace := trace w @ [HttpGet url]\<rparr>)"
  using assms by (simp add: scrape_item_def session_get_def item_handler_def)

lemma scrape_item_parse_fails:
  assumes "http_get e (length (trace w)) url = Inr html" and "bs_parse e html = Inl (Exc m)"
  shows "scrape_item e url w = (Inr [], w\<lparr>trace := trace w @ [HttpGet url]\<rparr>)"
  using assms by (simp add: scrape_item_def session_get_def item_handler_def)

lemma scrape_item_keys:
  assumes "scrape_item e url w = (Inr details, w')"
  shows "fst ` set details \<subseteq>
     {''url'', ''committees'', ''actions'', ''cosponsors'', ''last_action_date'',
      ''introduced_date'', ''scraped_at''}"
  using assms
  by (auto simp: scrape_item_def session_get_def item_handler_def datetime_now_def
      split: sum.splits exn.splits)

lemma scrape_item_spares:
  assumes "scrape_item e url w = (Inr details, w')"
    and "k \<in> {''bill_number'', ''title'', ''status'', ''sponsor''}"
  shows "map_of (dict_update item details) k = map_of item k"
proof -
  from scrape_item_keys [OF assms(1)] assms(2) have "k \<notin> fst ` set details"
    by auto
  then show ?thesis by (rule map_of_dict_update_other)
qed

text \<open>
  Claim C8. When the enrichment loop of \<open>_scrape_page\<close> returns, it returns one
  final record for each search-result record, in order, and under each of the keys
  \<open>bill_number\<close>, \<open>title\<close>, \<open>status\<close> and \<open>sponsor\<close> the final record holds what the
  search-result record held: no mapping that \<open>scrape_item\<close> returns has one of these
  keys.
\<close>

theorem merge_keeps_search_fields:
  assumes "detail_items e items w = (Inr out, w')"
    and "k \<in> {''bill_number'', ''title'', ''status'', ''sponsor''}"
  shows "list_all2 (\<lambda>item final. map_of final k = map_of item k) items out"
  using assms(1)
proof (induction items arbitrary: w out)
  case Nil
  then show ?case by simp
next
  case (Cons item items)
  from Cons.prems obtain u where u: "map_of item ''url'' = Some u"
    by (auto split: option.splits)
  obtain r w1 where s: "(case u of PStr url \<Rightarrow> scrape_item e url w | _ \<Rightarrow> (Inr [], w)) = (r, w1)"
    by (cases "case u of PStr url \<Rightarrow> scrape_item e url w | _ \<Rightarrow> (Inr [], w)") auto
  with Cons.prems u obtain details where r: "r = Inr details"
    by (cases r) auto
  obtain r2 w2 where t: "detail_items e items w1 = (r2, w2)"
    by (cases "detail_items e items w1") auto
  with Cons.prems u s r obtain rest where r2: "r2 = Inr rest"
    by (cases r2) auto
  from Cons.prems u s r t r2 have out: "out = dict_update item details # rest"
    and ww: "w2 = w'"
    by simp_all
  have keep: "map_of (dict_update item details) k = map_of item k"
  proof (cases u)
    case (PStr url)
    with s r have "scrape_item e url w = (Inr details, w1)" by simp
    then show ?thesis using assms(2) by (rule scrape_item_spares)
  qed (use s r in auto)
  from t r2 ww have "list_all2 (\<lambda>item final. map_of final k = map_of item k) items rest"
    by (intro Cons.IH) simp
  with keep out show ?case by simp
qed

lemma sample_details:
  "detail_items sample_site [sample_parsed] \<lparr>trace = [], ticks = 1\<rparr> =
     (Inr [sample_record],
      \<lparr>trace = [HttpGet ''https://www.congress.gov/bill/119/hr1''], ticks = 2\<rparr>)"
  by code_simp

theorem merge_keeps_search_fields_witness:
  "detail_items sample_site [sample_parsed] \<lparr>trace = [], ticks = 1\<rparr> =
     (Inr [sample_record],
      \<lparr>trace = [HttpGet ''https://www.congress.gov/bill/119/hr1''], ticks = 2\<rparr>)
   \<and> ''title'' \<in> {''bill_number'', ''title'', ''status'', ''sponsor''}
   \<and> map_of sample_record ''title'' = map_of sample_parsed ''title''
   \<and> map_of sample_parsed ''title'' = Some (PStr ''No title available'')"
proof -
  have k: "''title'' \<in> {''bill_number'', ''title'', ''status'', ''sponsor''}" by simp
  from merge_keeps_search_fields [OF sample_details k]
  have "map_of sample_record ''title'' = map_of sample_parsed ''title''" by simp
  moreover have "map_of sample_parsed ''title'' = Some (PStr ''No title available'')"
    by (simp add: sample_parsed_def)
  ultimately show ?thesis using sample_details k by blast
qed

lemma parse_item_stamp:
  assumes "parse_item e it w0 = (Inr (Some item), w1)"
  shows "map_of item ''scraped_at'' = Some (PStr (now_iso e (ticks w0)))"
  using assms
  by (auto simp: parse_item_def datetime_now_def Let_def split: option.splits)

lemma parse_item_url:
  assumes "parse_item e it w0 = (Inr (Some item), w1)"
  shows "\<exists>href. map_of item ''url'' = Some (PStr (''https://www.congress.gov'' @ href))"
  using assms
  by (auto simp: parse_item_def datetime_now_def Let_def split: option.splits)

lemma detail_items_single:
  assumes "map_of item ''url'' = Some (PStr url)" and "scrape_item e url w = (Inr details, w')"
  shows "detail_items e [item] w = (Inr [dict_update item details], w')"
  using assms by simp

text \<open>
  Claim C10. A record that \<open>parse_search_results\<close> produced carries the time read during
  the search scrape under \<open>scraped_at\<close>. When the detail page of its URL is fetched and
  parsed, the mapping of \<open>scrape_item\<close> holds that URL under \<open>url\<close> and the time read
  during the detail scrape under \<open>scraped_at\<close>, and the merged record appended by
  \<open>_scrape_page\<close> holds these two values under the two keys. When the detail fetch or
  the parsing of the detail page raises an exception derived from \<open>Exception\<close>,
  \<open>scrape_item\<close> returns the empty mapping and the record is appended as it was.
\<close>

theorem detail_merge_overwrites:
  assumes "parse_item e it w0 = (Inr (Some item), w1)"
    and "map_of item ''url'' = Some (PStr url)"
  shows "map_of item ''scraped_at'' = Some (PStr (now_iso e (ticks w0)))
    \<and> (\<forall>html soup. http_get e (length (trace w)) url = Inr html \<and> bs_parse e html = Inr soup \<longrightarrow>
          (\<exists>details.
             scrape_item e url w =
               (Inr details, w\<lparr>trace := trace w @ [HttpGet url], ticks := Suc (ticks w)\<rparr>)
             \<and> detail_items e [item] w =
               (Inr [dict_update item details],
                w\<lparr>trace := trace w @ [HttpGet url], ticks := Suc (ticks w)\<rparr>)
             \<and> map_of details ''url'' = Some (PStr url)
             \<and> map_of details ''scraped_at'' = Some (PStr (now_iso e (ticks w)))
             \<and> map_of (dict_update item details) ''url'' = Some (PStr url)
             \<and> map_of (dict_update item details) ''scraped_at''
                 = Some (PStr (now_iso e (ticks w)))))
    \<and> (\<forall>m. http_get e (length (trace w)) url = Inl (Exc m)
             \<or> (\<exists>html. http_get e (length (trace w)) url = Inr html
                        \<and> bs_parse e html = Inl (Exc m)) \<longrightarrow>
          scrape_item e url w = (Inr [], w\<lparr>trace := trace w @ [HttpGet url]\<rparr>)
          \<and> detail_items e [item] w = (Inr [item], w\<lparr>trace := trace w @ [HttpGet url]\<rparr>))"
proof (intro conjI allI impI)
  show "map_of item ''scraped_at'' = Some (PStr (now_iso e (ticks w0)))"
    using assms(1) by (rule parse_item_stamp)
next
  fix html soup
  assume "http_get e (length (trace w)) url = Inr html \<and> bs_parse e html = Inr soup"
  then have g: "http_get e (length (trace w)) url = Inr html" and b: "bs_parse e html = Inr soup"
    by simp_all
  have s: "scrape_item e url w =
     (Inr [(''url'', PStr url),
           (''committees'', PList (map PStr (extract_committees soup))),
           (''actions'', PList (map PDict (extract_actions soup))),
           (''cosponsors'', PList (map PStr (extract_cosponsors soup))),
           (''last_action_date'', opt_str (extract_last_action_date soup)),
           (''introduced_date'', opt_str (extract_introduced_date soup)),
           (''scraped_at'', PStr (now_iso e (ticks w)))],
      w\<lparr>trace := trace w @ [HttpGet url], ticks := Suc (ticks w)\<rparr>)"
    using g b by (rule scrape_item_ok)
  show "\<exists>details.
             scrape_item e url w =
               (Inr details, w\<lparr>trace := trace w @ [HttpGet url], ticks := Suc (ticks w)\<rparr>)
             \<and> detail_items e [item] w =
               (Inr [dict_update item details],
                w\<lparr>trace := trace w @ [HttpGet url], ticks := Suc (ticks w)\<rparr>)
             \<and> map_of details ''url'' = Some (PStr url)
             \<and> map_of details ''scraped_at'' = Some (PStr (now_iso e (ticks w)))
             \<and> map_of (dict_update item details) ''url'' = Some (PStr url)
             \<and> map_of (dict_update item details) ''scraped_at''
                 = Some (PStr (now_iso e (ticks w)))"
    by (rule exI, intro conjI, rule s, rule detail_items_single [OF assms(2) s])
      (simp_all add: map_of_dict_setitem)
next
  fix m
  assume f: "http_get e (length (trace w)) url = Inl (Exc m)
             \<or> (\<exists>html. http_get e (length (trace w)) url = Inr html
                        \<and> bs_parse e html = Inl (Exc m))"
  then show s: "scrape_item e url w = (Inr [], w\<lparr>trace := trace w @ [HttpGet url]\<rparr>)"
    using scrape_item_get_fails scrape_item_parse_fails by blast
  from detail_items_single [OF assms(2) s]
  show "detail_items e [item] w = (Inr [item], w\<lparr>trace := trace w @ [HttpGet url]\<rparr>)"
    by simp
qed

lemma sample_parse_item:
  "parse_item sample_site sample_item world0 = (Inr (Some sample_parsed), \<lparr>trace = [], ticks = 1\<rparr>)"
  by code_simp

lemma failing_parse_item:
  "parse_item failing_site sample_item world0 = (Inr (Some sample_parsed), \<lparr>trace = [], ticks = 1\<rparr>)"
  by code_simp

theorem detail_merge_overwrites_witness:
  "parse_item sample_site sample_item world0 = (Inr (Some sample_parsed), \<lparr>trace = [], ticks = 1\<rparr>)
   \<and> map_of sample_parsed ''url'' = Some (PStr ''https://www.congress.gov/bill/119/hr1'')
   \<and> map_of sample_parsed ''scraped_at'' = Some (PStr ''T0'')
   \<and> http_get sample_site 0 ''https://www.congress.gov/bill/119/hr1'' = Inr ''detail''
   \<and> bs_parse sample_site ''detail'' = Inr (Tag ''html'' [] [] [])
   \<and> map_of sample_record ''scraped_at'' = Some (PStr ''T1'')
   \<and> http_get failing_site 0 ''https://www.congress.gov/bill/119/hr1'' = Inl (Exc ''ClientError'')
   \<and> detail_items failing_site [sample_parsed] \<lparr>trace = [], ticks = 1\<rparr> =
       (Inr [sample_parsed],
        \<lparr>trace = [HttpGet ''https://www.congress.gov/bill/119/hr1''], ticks = 1\<rparr>)"
proof -
  let ?url = "''https://www.congress.gov/bill/119/hr1''"
  let ?w = "\<lparr>trace = [], ticks = 1\<rparr>"
  have u: "map_of sample_parsed ''url'' = Some (PStr ?url)"
    by (simp add: sample_parsed_def)
  have g: "http_get sample_site (length (trace ?w)) ?url = Inr ''detail''"
    by (simp add: sample_site_def base_url_def)
  have b: "bs_parse sample_site ''detail'' = Inr (Tag ''html'' [] [] [])"
    by (simp add: sample_site_def)
  have n: "now_iso sample_site 1 = ''T1''" "now_iso sample_site 0 = ''T0''"
    by (simp_all add: sample_site_def str_nat.simps digit_char_def)
  have f: "http_get failing_site (length (trace ?w)) ?url = Inl (Exc ''ClientError'')"
    by (simp add: failing_site_def)
  from detail_merge_overwrites [OF sample_parse_item u, of ?w] g b
  obtain details where
    d: "detail_items sample_site [sample_parsed] ?w =
          (Inr [dict_update sample_parsed details],
           ?w\<lparr>trace := trace ?w @ [HttpGet ?url], ticks := Suc (ticks ?w)\<rparr>)"
    and s: "map_of (dict_update sample_parsed details) ''scraped_at''
          = Some (PStr (now_iso sample_site (ticks ?w)))"
    and t: "map_of sample_parsed ''scraped_at'' = Some (PStr (now_iso sample_site (ticks world0)))"
    by blast
  from d sample_details have "dict_update sample_parsed details = sample_record" by simp
  with s n have r: "map_of sample_record ''scraped_at'' = Some (PStr ''T1'')" by simp
  from t n have t0: "map_of sample_parsed ''scraped_at'' = Some (PStr ''T0'')"
    by (simp add: world0_def)
  from detail_merge_overwrites [OF failing_parse_item u, of ?w] f
  have "detail_items failing_site [sample_parsed] ?w =
       (Inr [sample_parsed], ?w\<lparr>trace := trace ?w @ [HttpGet ?url]\<rparr>)"
    by blast
  then have x: "detail_items failing_site [sample_parsed] ?w =
       (Inr [sample_parsed], \<lparr>trace = [HttpGet ?url], ticks = 1\<rparr>)"
    by simp
  from g f have g0: "http_get sample_site 0 ?url = Inr ''detail''"
    and f0: "http_get failing_site 0 ?url = Inl (Exc ''ClientError'')" by simp_all
  from sample_parse_item u t0 g0 b r f0 x show ?thesis by blast
qed

section \<open>Properties of the run\<close>

subsection \<open>What a run adds to the trace\<close>

lemma scrape_item_trace: "trace (snd (scrape_item e url w)) = trace w @ [HttpGet url]"
  by (auto simp: scrape_item_def session_get_def item_handler_def datetime_now_def
      split: sum.splits exn.splits)

lemma parse_item_trace: "trace (snd (parse_item e item w)) = trace w"
  by (auto simp: parse_item_def datetime_now_def Let_def split: option.splits)

lemma parse_items_trace: "trace (snd (parse_items e items w)) = trace w"
proof (induction items arbitrary: w)
  case Nil
  then show ?case by simp
next
  case (Cons item items)
  obtain r w1 where p: "parse_item e item w = (r, w1)"
    by (cases "parse_item e item w") auto
  with parse_item_trace [of e item w] have t: "trace w1 = trace w" by simp
  from Cons.IH [of w1] t p show ?case
    by (auto split: sum.splits option.splits prod.splits)
qed

lemma parse_search_results_trace: "trace (snd (parse_search_results e html w)) = trace w"
proof (cases "bs_parse e html")
  case (Inl x)
  then show ?thesis by (simp add: parse_search_results_def)
next
  case (Inr soup)
  then have "snd (parse_search_results e html w) =
      snd (parse_items e (find_all soup ''li'' (Some ''expanded'')) w)"
    by (simp add: parse_search_results_def Let_def split: prod.splits)
  then show ?thesis by (simp add: parse_items_trace)
qed

lemma detail_items_trace:
  "\<exists>urls. trace (snd (detail_items e items w)) = trace w @ map HttpGet urls"
proof (induction items arbitrary: w)
  case Nil
  show ?case by (rule exI [of _ "[]"]) simp
next
  case (Cons item items)
  show ?case
  proof (cases "map_of item ''url''")
    case None
    then show ?thesis by (intro exI [of _ "[]"]) simp
  next
    case (Some u)
    define step where "step = (case u of PStr url \<Rightarrow> scrape_item e url w | _ \<Rightarrow> (Inr [], w))"
    obtain r w1 where s: "step = (r, w1)" by (cases step) auto
    have "\<exists>us. trace w1 = trace w @ map HttpGet us"
    proof (cases u)
      case (PStr url)
      with s step_def scrape_item_trace [of e url w]
      have "trace w1 = trace w @ map HttpGet [url]" by simp
      then show ?thesis by blast
    next
      case (PInt x)
      with s step_def have "trace w1 = trace w @ map HttpGet []" by simp
      then show ?thesis by blast
    next
      case PNone
      with s step_def have "trace w1 = trace w @ map HttpGet []" by simp
      then show ?thesis by blast
    next
      case (PList x)
      with s step_def have "trace w1 = trace w @ map HttpGet []" by simp
      then show ?thesis by blast
    next
      case (PDict x)
      with s step_def have "trace w1 = trace w @ map HttpGet []" by simp
      then show ?thesis by blast
    qed
    then obtain us where us: "trace w1 = trace w @ map HttpGet us" by blast
    from Cons.IH [of w1] obtain vs where
      vs: "trace (snd (detail_items e items w1)) = trace w1 @ map HttpGet vs" by blast
    have d: "detail_items e (item # items) w =
        (case step of
           (Inl x, w1) \<Rightarrow> (Inl x, w1)
         | (Inr details, w1) \<Rightarrow>
             (case detail_items e items w1 of
                (Inl x, w2) \<Rightarrow> (Inl x, w2)
              | (Inr rest, w2) \<Rightarrow> (Inr (dict_update item details # rest), w2)))"
      using Some by (simp add: step_def)
    show ?thesis
    proof (cases r)
      case (Inl x)
      with d s us have "trace (snd (detail_items e (item # items) w)) = trace w @ map HttpGet us"
        by simp
      then show ?thesis by blast
    next
      case (Inr details)
      with d s have "snd (detail_items e (item # items) w) = snd (detail_items e items w1)"
        by (auto split: prod.splits sum.splits)
      with vs us have "trace (snd (detail_items e (item # items) w)) = trace w @ map HttpGet (us @ vs)"
        by simp
      then show ?thesis by blast
    qed
  qed
qed

lemma scrape_page_try_trace:
  "\<exists>urls. trace (snd (scrape_page_try e reg job url w)) = trace w @ map HttpGet urls"
proof -
  let ?w1 = "w\<lparr>trace := trace w @ [HttpGet url]\<rparr>"
  show ?thesis
  proof (cases "http_get e (length (trace w)) url")
    case (Inl x)
    then have "trace (snd (scrape_page_try e reg job url w)) = trace w @ map HttpGet [url]"
      by (simp add: scrape_page_try_def session_get_def)
    then show ?thesis by blast
  next
    case (Inr html)
    show ?thesis
    proof (cases "map_of reg (source job)")
      case None
      with Inr have "trace (snd (scrape_page_try e reg job url w)) = trace w @ map HttpGet [url]"
        by (simp add: scrape_page_try_def session_get_def)
      then show ?thesis by blast
    next
      case (Some sc)
      obtain r w2 where p: "parse_search_results e html ?w1 = (r, w2)"
        by (cases "parse_search_results e html ?w1") auto
      with parse_search_results_trace [of e html ?w1]
      have t2: "trace w2 = trace w @ [HttpGet url]" by simp
      show ?thesis
      proof (cases r)
        case (Inl x)
        with Inr Some p t2
        have "trace (snd (scrape_page_try e reg job url w)) = trace w @ map HttpGet [url]"
          by (cases sc) (simp add: scrape_page_try_def session_get_def)
        then show ?thesis by blast
      next
        case (Inr items)
        from detail_items_trace [of e items w2] obtain us where
          "trace (snd (detail_items e items w2)) = trace w2 @ map HttpGet us" by blast
        with \<open>http_get e (length (trace w)) url = Inr html\<close> Some p t2 Inr
        have "trace (snd (scrape_page_try e reg job url w)) = trace w @ map HttpGet (url # us)"
          by (cases sc) (simp add: scrape_page_try_def session_get_def)
        then show ?thesis by blast
      qed
    qed
  qed
qed

lemma scrape_page_cases:
  obtains (raises) x where
      "build_search_url_checked (CongressInt (congress job)) (source job) (page job) = Inl x"
      "scrape_page e reg job w = (Inl x, w)"
  | (built) url where
      "build_search_url_checked (CongressInt (congress job)) (source job) (page job) = Inr url"
      "url = build_search_url (CongressInt (congress job)) (source job) (page job)"
      "snd (scrape_page e reg job w) = snd (scrape_page_try e reg job url w)"
      "\<And>m. fst (scrape_page e reg job w) = Inl (Exc m) \<longleftrightarrow>
            (\<exists>m'. fst (scrape_page_try e reg job url w) = Inl (Exc m'))
            \<and> str_too_long (page job) \<and> m = ''ValueError''"
proof (cases "build_search_url_checked (CongressInt (congress job)) (source job) (page job)")
  case (Inl x)
  then have "scrape_page e reg job w = (Inl x, w)" by (simp add: scrape_page_def)
  with Inl show ?thesis by (rule raises)
next
  case (Inr url)
  then have u: "url = build_search_url (CongressInt (congress job)) (source job) (page job)"
    by (auto simp: build_search_url_checked_def split: if_splits)
  have s: "snd (scrape_page e reg job w) = snd (scrape_page_try e reg job url w)"
    using Inr by (auto simp: scrape_page_def split: prod.splits sum.splits exn.splits)
  have n: "\<And>m. fst (scrape_page e reg job w) = Inl (Exc m) \<longleftrightarrow>
            (\<exists>m'. fst (scrape_page_try e reg job url w) = Inl (Exc m'))
            \<and> str_too_long (page job) \<and> m = ''ValueError''"
    using Inr by (auto simp: scrape_page_def split: prod.splits sum.splits exn.splits)
  from Inr u s n show ?thesis by (rule built)
qed

lemma scrape_page_trace:
  "\<exists>urls. trace (snd (scrape_page e reg job w)) = trace w @ map HttpGet urls"
proof (cases rule: scrape_page_cases [of job e reg w])
  case (raises x)
  then show ?thesis by (intro exI [of _ "[]"]) simp
next
  case (built url)
  with scrape_page_try_trace [of e reg job url w] show ?thesis by simp
qed

subsection \<open>Exceptions that leave \<open>_scrape_page\<close>\<close>


lemma str_nat_one: "str_nat (Suc 0) = [digit_char (Suc 0)]"
  by (subst str_nat.simps) simp



lemma scrape_loop_trace:
  assumes "scrape_loop e reg q res w = Some y"
  shows "\<exists>urls. trace (snd y) = trace w @ map HttpGet urls"
proof (rule scrape_loop.raw_induct
    [where P = "\<lambda>e reg q res w y. \<exists>urls. trace (snd y) = trace w @ map HttpGet urls",
      OF _ assms], goal_cases)
  case (1 f e reg q res w y)
  show ?case
  proof (cases q)
    case Nil
    with 1(2) have "trace (snd y) = trace w @ map HttpGet []" by auto
    then show ?thesis by blast
  next
    case (Cons job rest)
    obtain r w1 where p: "scrape_page e reg job w = (r, w1)"
      by (cases "scrape_page e reg job w") auto
    from scrape_page_trace [of e reg job w] p obtain us where
      us: "trace w1 = trace w @ map HttpGet us" by auto
    show ?thesis
    proof (cases r)
      case (Inl x)
      with 1(2) Cons p us have "trace (snd y) = trace w @ map HttpGet us" by auto
      then show ?thesis by blast
    next
      case (Inr items)
      with 1(2) Cons p obtain q' where "f e reg q' (res @ items) w1 = Some y"
        by simp
      from 1(1) [OF this] obtain vs where "trace (snd y) = trace w1 @ map HttpGet vs" by blast
      with us have "trace (snd y) = trace w @ map HttpGet (us @ vs)" by simp
      then show ?thesis by blast
    qed
  qed
qed

subsection \<open>The turns of a run\<close>

lemma continuations_length: "length (continuations log) \<le> length log"
  by (induction log rule: continuations.induct) auto

lemma continuations_all:
  "length (continuations log) = length log \<Longrightarrow>
   continuations log =
     map (\<lambda>job. \<lparr>congress = congress job, source = source job, page = page job + 1\<rparr>)
       (map fst log)"
proof (induction log rule: continuations.induct)
  case 1
  then show ?case by simp
next
  case (2 job items w' log)
  from continuations_length [of log] 2(3) have "items \<noteq> []"
    by (auto split: if_splits)
  with 2 show ?case by simp
qed

lemma no_self_feeding:
  assumes "map fst log = continuations log"
  shows "log = []"
proof (cases log)
  case Nil
  then show ?thesis by simp
next
  case (Cons t log')
  from assms have "length (continuations log) = length log"
    by (metis length_map)
  from continuations_all [OF this] assms have
    "map fst log =
       map (\<lambda>job. \<lparr>congress = congress job, source = source job, page = page job + 1\<rparr>)
         (map fst log)" by simp
  with Cons have "fst t = \<lparr>congress = congress (fst t), source = source (fst t),
      page = page (fst t) + 1\<rparr>" by simp
  then have "page (fst t) = page (fst t) + 1"
    by (metis scraping_job.select_convs(3))
  then show ?thesis by simp
qed

lemma loop_log_returns:
  assumes "log_fits e reg w log" and "map fst log = q @ continuations log"
  shows "scrape_loop e reg q res w =
           Some (Inr (res @ concat (map (\<lambda>t. fst (snd t)) log)), log_end w log)"
  using assms
proof (induction log arbitrary: q res w)
  case Nil
  then show ?case by (simp add: scrape_loop_empty)
next
  case (Cons t log)
  obtain job items w1 where t: "t = (job, items, w1)" by (cases t) auto
  from Cons.prems(1) t have p: "scrape_page e reg job w = (Inr items, w1)"
    and f: "log_fits e reg w1 log" by simp_all
  show ?case
  proof (cases q)
    case Nil
    with Cons.prems(2) have "map fst (t # log) = continuations (t # log)" by simp
    from no_self_feeding [OF this] show ?thesis by simp
  next
    case (Cons j rest)
    let ?q' = "if items \<noteq> []
        then rest @ [\<lparr>congress = congress job, source = source job, page = page job + 1\<rparr>]
        else rest"
    from Cons Cons.prems(2) t have j: "j = job" and m: "map fst log = ?q' @ continuations log"
      by (auto split: if_splits)
    from Cons.IH [OF f m, of "res @ items"] scrape_loop_step [OF p, of rest res] Cons j t
    show ?thesis by simp
  qed
qed

lemma loop_log_raises:
  assumes "log_fits e reg w log" and "q @ continuations log = map fst log @ job # rest"
    and "scrape_page e reg job (log_end w log) = (Inl x, w')"
  shows "scrape_loop e reg q res w = Some (Inl x, w')"
  using assms
proof (induction log arbitrary: q res w)
  case Nil
  then show ?case by (simp add: scrape_loop_raise)
next
  case (Cons t log)
  obtain j items w1 where t: "t = (j, items, w1)" by (cases t) auto
  from Cons.prems(1) t have p: "scrape_page e reg j w = (Inr items, w1)"
    and f: "log_fits e reg w1 log" by simp_all
  show ?case
  proof (cases q)
    case Nil
    with Cons.prems(2) have "map fst (t # log @ []) @ job # rest = continuations (t # log)"
      by simp
    then have "length (continuations (t # log)) = length (t # log) + Suc (length rest)"
      by (metis append_Nil2 length_Cons length_append length_map)
    with continuations_length [of "t # log"] show ?thesis by simp
  next
    case (Cons j' rest')
    let ?q' = "if items \<noteq> []
        then rest' @ [\<lparr>congress = congress j, source = source j, page = page j + 1\<rparr>]
        else rest'"
    from Cons Cons.prems(2) t have j: "j' = j"
      and m: "?q' @ continuations log = map fst log @ job # rest"
      by (auto split: if_splits)
    from Cons.prems(3) t have "scrape_page e reg job (log_end w1 log) = (Inl x, w')" by simp
    from Cons.IH [OF f m this, of "res @ items"] scrape_loop_step [OF p, of rest' res] Cons j
    show ?thesis by simp
  qed
qed

lemma loop_has_log:
  assumes "scrape_loop e reg q res w = Some y"
  shows "\<exists>log. log_fits e reg w log
     \<and> (case fst y of
          Inr out \<Rightarrow> map fst log = q @ continuations log
                     \<and> out = res @ concat (map (\<lambda>t. fst (snd t)) log)
                     \<and> snd y = log_end w log
        | Inl x \<Rightarrow> (\<exists>job rest. q @ continuations log = map fst log @ job # rest
                     \<and> scrape_page e reg job (log_end w log) = (Inl x, snd y)))"
proof (rule scrape_loop.raw_induct
    [where P = "\<lambda>e reg q res w y. \<exists>log. log_fits e reg w log
     \<and> (case fst y of
          Inr out \<Rightarrow> map fst log = q @ continuations log
                     \<and> out = res @ concat (map (\<lambda>t. fst (snd t)) log)
                     \<and> snd y = log_end w log
        | Inl x \<Rightarrow> (\<exists>job rest. q @ continuations log = map fst log @ job # rest
                     \<and> scrape_page e reg job (log_end w log) = (Inl x, snd y)))",
      OF _ assms], goal_cases)
  case (1 f e reg q res w y)
  show ?case
  proof (cases q)
    case Nil
    with 1(2) have "y = (Inr res, w)" by simp
    with Nil show ?thesis by (intro exI [of _ "[]"]) simp
  next
    case (Cons job rest)
    obtain r w1 where p: "scrape_page e reg job w = (r, w1)"
      by (cases "scrape_page e reg job w") auto
    show ?thesis
    proof (cases r)
      case (Inl x)
      with 1(2) Cons p have "y = (Inl x, w1)" by simp
      with Cons p Inl show ?thesis by (intro exI [of _ "[]"]) auto
    next
      case (Inr items)
      let ?q' = "if items \<noteq> []
          then rest @ [\<lparr>congress = congress job, source = source job, page = page job + 1\<rparr>]
          else rest"
      from 1(2) Cons p Inr have "f e reg ?q' (res @ items) w1 = Some y" by simp
      from 1(1) [OF this] obtain log where f: "log_fits e reg w1 log"
        and c: "case fst y of
          Inr out \<Rightarrow> map fst log = ?q' @ continuations log
                     \<and> out = (res @ items) @ concat (map (\<lambda>t. fst (snd t)) log)
                     \<and> snd y = log_end w1 log
        | Inl x \<Rightarrow> (\<exists>j r. ?q' @ continuations log = map fst log @ j # r
                     \<and> scrape_page e reg j (log_end w1 log) = (Inl x, snd y))"
        by blast
      from f p Inr have "log_fits e reg w ((job, items, w1) # log)" by simp
      moreover from c Cons have "case fst y of
          Inr out \<Rightarrow> map fst ((job, items, w1) # log) = q @ continuations ((job, items, w1) # log)
                     \<and> out = res @ concat (map (\<lambda>t. fst (snd t)) ((job, items, w1) # log))
                     \<and> snd y = log_end w ((job, items, w1) # log)
        | Inl x \<Rightarrow> (\<exists>j r. q @ continuations ((job, items, w1) # log)
                           = map fst ((job, items, w1) # log) @ j # r
                     \<and> scrape_page e reg j (log_end w ((job, items, w1) # log)) = (Inl x, snd y))"
        by (cases "fst y") (auto split: if_splits)
      ultimately show ?thesis by blast
    qed
  qed
qed

subsection \<open>Jobs met by a run\<close>


subsection \<open>Termination\<close>

lemma queue_weight_append:
  "queue_weight n (xs @ ys) = queue_weight n xs + queue_weight n ys"
  by (simp add: queue_weight_def)

lemma scrape_loop_terminates:
  assumes bound: "\<And>j v items v'. n \<le> page j \<Longrightarrow> scrape_page e reg j v = (Inr items, v') \<Longrightarrow> items = []"
  shows "\<exists>y. scrape_loop e reg q res w = Some y"
proof (induction "queue_weight n q" arbitrary: q res w rule: less_induct)
  case less
  show ?case
  proof (cases q)
    case Nil
    then show ?thesis by (simp add: scrape_loop_empty)
  next
    case (Cons job rest)
    obtain r w1 where p: "scrape_page e reg job w = (r, w1)"
      by (cases "scrape_page e reg job w") auto
    show ?thesis
    proof (cases r)
      case (Inl x)
      with p Cons show ?thesis by (simp add: scrape_loop_raise)
    next
      case (Inr items)
      let ?q' = "if items \<noteq> []
          then rest @ [\<lparr>congress = congress job, source = source job, page = page job + 1\<rparr>]
          else rest"
      have "queue_weight n ?q' < queue_weight n q"
      proof (cases "items = []")
        case True
        with Cons show ?thesis by (simp add: queue_weight_def)
      next
        case False
        with bound [of job w items w1] p Inr have "page job < n" by force
        with False Cons show ?thesis
          by (simp add: queue_weight_def)
      qed
      from less [OF this] obtain y where
        "scrape_loop e reg ?q' (res @ items) w1 = Some y" by blast
      with scrape_loop_step [of e reg job w items w1 rest res] p Inr Cons show ?thesis by simp
    qed
  qed
qed

text \<open>
  The length of the decimal text grows with the number, and a power of ten has one
  digit more than its exponent.
\<close>

lemma str_nat_length_pos: "Suc 0 \<le> length (str_nat n)"
  using str_nat_not_Nil [of n] by (cases "str_nat n") simp_all

lemma str_nat_length_mono: "a \<le> b \<Longrightarrow> length (str_nat a) \<le> length (str_nat b)"
proof (induction a arbitrary: b rule: str_nat.induct)
  case (1 n)
  show ?case
  proof (cases "n < 10")
    case True
    then have "length (str_nat n) = 1" by (subst str_nat.simps) simp
    with str_nat_length_pos [of b] show ?thesis by simp
  next
    case False
    with 1(2) have b: "\<not> b < 10" by simp
    from 1(2) have "n div 10 \<le> b div 10" by (rule div_le_mono)
    from 1(1) [OF False this] have "length (str_nat (n div 10)) \<le> length (str_nat (b div 10))" .
    moreover from False have "length (str_nat n) = Suc (length (str_nat (n div 10)))"
      by (subst str_nat.simps) simp
    moreover from b have "length (str_nat b) = Suc (length (str_nat (b div 10)))"
      by (subst str_nat.simps) simp
    ultimately show ?thesis by simp
  qed
qed

lemma str_nat_length_power: "length (str_nat (10 ^ k)) = Suc k"
proof (induction k)
  case 0
  then show ?case by (simp add: str_nat_one)
next
  case (Suc k)
  have "\<not> (10::nat) ^ Suc k < 10" by simp
  then have "length (str_nat (10 ^ Suc k)) = Suc (length (str_nat (10 ^ Suc k div 10)))"
    by (subst str_nat.simps) simp
  with Suc show ?case by simp
qed



lemma str_too_long_first_unwritable:
  assumes "first_unwritable \<le> p"
  shows "1 < p \<and> str_too_long p"
proof -
  have "(1::int) \<le> 10 ^ (int_max_str_digits - 1)" by (rule one_le_power) simp
  then have "(1::int) < 10 * 10 ^ (int_max_str_digits - 1)" by linarith
  also have "\<dots> = 10 ^ Suc (int_max_str_digits - 1)" by simp
  also have "Suc (int_max_str_digits - 1) = int_max_str_digits"
    by (simp add: int_max_str_digits_def)
  finally have "1 < first_unwritable" by (simp only: first_unwritable_def)
  with assms have p: "1 < p" by simp
  have "length (str_nat (10 ^ int_max_str_digits)) \<le> length (str_nat (nat \<bar>p\<bar>))"
  proof (rule str_nat_length_mono)
    from assms have "int (10 ^ int_max_str_digits) \<le> p" by (simp add: first_unwritable_def)
    with p show "10 ^ int_max_str_digits \<le> nat \<bar>p\<bar>" by linarith
  qed
  then have "str_too_long p"
    unfolding str_nat_length_power str_too_long_def by linarith
  with p show ?thesis by simp
qed

text \<open>
  The loop ends on every input: a sequence of pages that never runs dry reaches a page
  number of more than 4300 digits, and the building of its URL ends the loop.
\<close>

lemma scrape_loop_total: "\<exists>y. scrape_loop e reg q res w = Some y"
proof (rule scrape_loop_terminates [of first_unwritable])
  fix j v items v'
  assume l: "first_unwritable \<le> page j" and p: "scrape_page e reg j v = (Inr items, v')"
  from l have "1 < page j \<and> str_too_long (page j)" by (rule str_too_long_first_unwritable)
  then have "build_search_url_checked (CongressInt (congress j)) (source j) (page j)
      = Inl (Exc ''ValueError'')"
    by (simp add: build_search_url_checked_def)
  then have "scrape_page e reg j v = (Inl (Exc ''ValueError''), v)"
    by (simp add: scrape_page_def)
  with p show "items = []" by simp
qed

subsection \<open>Failing jobs\<close>


lemma failing_site_fails:
  assumes "build_search_url_checked (CongressInt (congress job)) (source job) (page job) = Inr url"
    and "\<not> str_too_long (page job)"
  shows "job_fails failing_site reg job w"
  using assms by (simp add: job_fails_def failing_site_def)

subsection \<open>Sample runs\<close>

declare scrape_loop.simps [code]

lemma one_page_run:
  "scrape_loop one_page_site registry0 [job0] [] world0 =
     Some (Inr [sample_record],
           \<lparr>trace = [HttpGet (build_search_url (CongressInt 119) ''legislation'' 1),
                     HttpGet ''https://www.congress.gov/bill/119/hr1'',
                     HttpGet (build_search_url (CongressInt 119) ''legislation'' 2)],
            ticks = 2\<rparr>)"
  by code_simp

lemma cancelled_loop:
  "scrape_loop cancelled_site registry0 [job0] [] world0 =
     Some (Inl (BaseExc ''CancelledError''),
           \<lparr>trace = [HttpGet (build_search_url (CongressInt 119) ''legislation'' 1)],
            ticks = 0\<rparr>)"
  by code_simp

lemma cancelled_page:
  "fst (scrape_page cancelled_site registry0 job0 world0) = Inl (BaseExc ''CancelledError'')"
  by code_simp

lemma value_error_run:
  "scrape sample_site (new_scraper 0) 119 119 [''legislation''] world0 =
     Some (Inl (Exc ''ValueError''), \<lparr>trace = [SessionOpen], ticks = 0\<rparr>)"
  by (simp add: scrape_def init_session_def new_scraper_def world0_def)

lemma cancelled_run:
  "scrape cancelled_site (new_scraper 5) 119 119 [''legislation''] world0 =
     Some (Inl (BaseExc ''CancelledError''),
           \<lparr>trace = [SessionOpen, HttpGet (build_search_url (CongressInt 119) ''legislation'' 1)],
            ticks = 0\<rparr>)"
  by code_simp


lemma unwritable_url:
  "build_search_url_checked (CongressInt first_unwritable) src p = Inl (Exc ''ValueError'')"
  using str_too_long_first_unwritable [of first_unwritable]
  by (simp add: build_search_url_checked_def)

lemma unwritable_run:
  "scrape failing_site (new_scraper 5) first_unwritable first_unwritable [''legislation''] world0 =
     Some (Inl (Exc ''ValueError''), \<lparr>trace = [SessionOpen], ticks = 0\<rparr>)"
proof -
  have "range_down first_unwritable (first_unwritable - 1) = [first_unwritable]"
    by (simp add: range_down_upto)
  then have i: "initial_jobs first_unwritable first_unwritable [''legislation''] =
      [\<lparr>congress = first_unwritable, source = ''legislation'', page = 1\<rparr>]"
    by (simp add: initial_jobs_def)
  have "scrape_page failing_site [(''legislation'', LegislationScraper)]
          \<lparr>congress = first_unwritable, source = ''legislation'', page = 1\<rparr>
          \<lparr>trace = [SessionOpen], ticks = 0\<rparr>
        = (Inl (Exc ''ValueError''), \<lparr>trace = [SessionOpen], ticks = 0\<rparr>)"
    by (simp add: scrape_page_def unwritable_url)
  from scrape_loop_raise [OF this] i show ?thesis
    by (simp add: scrape_def init_session_def new_scraper_def world0_def)
qed

subsection \<open>Continuations\<close>

text \<open>
  Claim C1, as the code has it. When \<open>_scrape_page\<close> returns the items of a job, the
  loop goes on with the rest of the queue, followed by the job of the same congress
  and source for the next page exactly when the items are not empty. Over a whole run:
  the loop returns exactly when there is a log of turns in which the jobs processed
  are the queued jobs followed, in order, by the continuations of the turns with
  items, and it then returns the results it started from followed by the items of all
  turns; and the loop ends with an exception exactly when, after such turns, a job
  still waits in the queue and \<open>_scrape_page\<close> raises the exception for it.
\<close>

theorem continuations_follow_items:
  "(scrape_page e reg job w = (Inr items, w1) \<longrightarrow>
      scrape_loop e reg (job # rest) res w =
        scrape_loop e reg
          (if items \<noteq> []
           then rest @ [\<lparr>congress = congress job, source = source job, page = page job + 1\<rparr>]
           else rest)
          (res @ items) w1)
   \<and> (scrape_loop e reg q res w = Some (Inr out, w') \<longleftrightarrow>
        (\<exists>log. log_fits e reg w log
           \<and> map fst log = q @ continuations log
           \<and> out = res @ concat (map (\<lambda>t. fst (snd t)) log)
           \<and> w' = log_end w log))
   \<and> (scrape_loop e reg q res w = Some (Inl x, w') \<longleftrightarrow>
        (\<exists>log waiting later. log_fits e reg w log
           \<and> q @ continuations log = map fst log @ waiting # later
           \<and> scrape_page e reg waiting (log_end w log) = (Inl x, w')))"
proof (intro conjI impI)
  assume "scrape_page e reg job w = (Inr items, w1)"
  then show "scrape_loop e reg (job # rest) res w =
        scrape_loop e reg
          (if items \<noteq> []
           then rest @ [\<lparr>congress = congress job, source = source job, page = page job + 1\<rparr>]
           else rest)
          (res @ items) w1"
    by (rule scrape_loop_step)
next
  show "scrape_loop e reg q res w = Some (Inr out, w') \<longleftrightarrow>
        (\<exists>log. log_fits e reg w log
           \<and> map fst log = q @ continuations log
           \<and> out = res @ concat (map (\<lambda>t. fst (snd t)) log)
           \<and> w' = log_end w log)"
  proof
    assume "scrape_loop e reg q res w = Some (Inr out, w')"
    from loop_has_log [OF this] show "\<exists>log. log_fits e reg w log
           \<and> map fst log = q @ continuations log
           \<and> out = res @ concat (map (\<lambda>t. fst (snd t)) log)
           \<and> w' = log_end w log"
      by simp
  next
    assume "\<exists>log. log_fits e reg w log
           \<and> map fst log = q @ continuations log
           \<and> out = res @ concat (map (\<lambda>t. fst (snd t)) log)
           \<and> w' = log_end w log"
    then obtain log where "log_fits e reg w log" and "map fst log = q @ continuations log"
      and "out = res @ concat (map (\<lambda>t. fst (snd t)) log)" and "w' = log_end w log"
      by blast
    with loop_log_returns [of e reg w log q res]
    show "scrape_loop e reg q res w = Some (Inr out, w')" by simp
  qed
next
  show "scrape_loop e reg q res w = Some (Inl x, w') \<longleftrightarrow>
        (\<exists>log waiting later. log_fits e reg w log
           \<and> q @ continuations log = map fst log @ waiting # later
           \<and> scrape_page e reg waiting (log_end w log) = (Inl x, w'))"
  proof
    assume "scrape_loop e reg q res w = Some (Inl x, w')"
    from loop_has_log [OF this] show "\<exists>log waiting later. log_fits e reg w log
           \<and> q @ continuations log = map fst log @ waiting # later
           \<and> scrape_page e reg waiting (log_end w log) = (Inl x, w')"
      by simp
  next
    assume "\<exists>log waiting later. log_fits e reg w log
           \<and> q @ continuations log = map fst log @ waiting # later
           \<and> scrape_page e reg waiting (log_end w log) = (Inl x, w')"
    then obtain log waiting later where "log_fits e reg w log"
      and "q @ continuations log = map fst log @ waiting # later"
      and "scrape_page e reg waiting (log_end w log) = (Inl x, w')"
      by blast
    then show "scrape_loop e reg q res w = Some (Inl x, w')"
      by (rule loop_log_raises)
  qed
qed

theorem continuations_follow_items_witness:
  "scrape_loop one_page_site registry0 [job0] [] world0 =
     Some (Inr [sample_record],
           \<lparr>trace = [HttpGet (build_search_url (CongressInt 119) ''legislation'' 1),
                     HttpGet ''https://www.congress.gov/bill/119/hr1'',
                     HttpGet (build_search_url (CongressInt 119) ''legislation'' 2)],
            ticks = 2\<rparr>)
   \<and> (\<exists>log. log_fits one_page_site registry0 world0 log
         \<and> map fst log = [job0] @ continuations log
         \<and> [sample_record] = [] @ concat (map (\<lambda>t. fst (snd t)) log)
         \<and> \<lparr>trace = [HttpGet (build_search_url (CongressInt 119) ''legislation'' 1),
                     HttpGet ''https://www.congress.gov/bill/119/hr1'',
                     HttpGet (build_search_url (CongressInt 119) ''legislation'' 2)],
            ticks = 2\<rparr> = log_end world0 log)"
proof -
  from continuations_follow_items [where e = one_page_site and reg = registry0
      and q = "[job0]" and res = "[]" and w = world0 and out = "[sample_record]"
      and w' = "\<lparr>trace = [HttpGet (build_search_url (CongressInt 119) ''legislation'' 1),
                     HttpGet ''https://www.congress.gov/bill/119/hr1'',
                     HttpGet (build_search_url (CongressInt 119) ''legislation'' 2)],
            ticks = 2\<rparr>"]
  have "scrape_loop one_page_site registry0 [job0] [] world0 =
     Some (Inr [sample_record],
           \<lparr>trace = [HttpGet (build_search_url (CongressInt 119) ''legislation'' 1),
                     HttpGet ''https://www.congress.gov/bill/119/hr1'',
                     HttpGet (build_search_url (CongressInt 119) ''legislation'' 2)],
            ticks = 2\<rparr>)
   \<longleftrightarrow> (\<exists>log. log_fits one_page_site registry0 world0 log
         \<and> map fst log = [job0] @ continuations log
         \<and> [sample_record] = [] @ concat (map (\<lambda>t. fst (snd t)) log)
         \<and> \<lparr>trace = [HttpGet (build_search_url (CongressInt 119) ''legislation'' 1),
                     HttpGet ''https://www.congress.gov/bill/119/hr1'',
                     HttpGet (build_search_url (CongressInt 119) ''legislation'' 2)],
            ticks = 2\<rparr> = log_end world0 log)"
    by blast
  with one_page_run show ?thesis by blast
qed

text \<open>
  Claim C1 as stated fails on a run whose fetch is cancelled: the sequence of pages of
  congress 119 stops after its first job although no empty list was returned for it,
  since the exception passes through \<open>except Exception\<close> and ends the loop.
\<close>

theorem sequence_stopped_by_exception:
  "scrape_loop cancelled_site registry0 [job0] [] world0 =
     Some (Inl (BaseExc ''CancelledError''),
           \<lparr>trace = [HttpGet (build_search_url (CongressInt 119) ''legislation'' 1)],
            ticks = 0\<rparr>)
   \<and> fst (scrape_page cancelled_site registry0 job0 world0) \<noteq> Inr []"
  using cancelled_loop cancelled_page by simp

subsection \<open>The session\<close>


text \<open>
  Whenever \<open>scrape\<close> ends, the session was opened once, before every request, and
  between the opening and the end of the run the trace holds requests only. The
  closing of the session is the last event exactly when \<open>scrape\<close> returns its results.
\<close>

lemma session_open_close:
  assumes "scrape e self s en srcs w = Some (r, w')"
  shows "\<exists>urls. trace w' =
           trace w @ SessionOpen # map HttpGet urls
             @ (case r of Inr results \<Rightarrow> [SessionClose] | Inl x \<Rightarrow> [])"
proof (cases "max_workers self \<le> 0")
  case True
  with assms have "r = Inl (Exc ''ValueError'')" and "trace w' = trace w @ [SessionOpen]"
    by (auto simp: scrape_def init_session_def)
  then show ?thesis by (intro exI [of _ "[]"]) simp
next
  case False
  let ?reg = "dict_setitem ''legislation'' LegislationScraper (scrapers self)"
  let ?w1 = "w\<lparr>trace := trace w @ [SessionOpen]\<rparr>"
  from False assms obtain r0 w2 where
    l: "scrape_loop e ?reg (initial_jobs s en srcs) [] ?w1 = Some (r0, w2)"
    by (auto simp: scrape_def init_session_def split: option.splits)
  from scrape_loop_trace [OF l] obtain urls where
    u: "trace w2 = trace w @ SessionOpen # map HttpGet urls" by auto
  show ?thesis
  proof (cases r0)
    case (Inl x)
    with False assms l have "r = Inl x" and "w' = w2"
      by (auto simp: scrape_def init_session_def)
    with u show ?thesis by (intro exI [of _ urls]) simp
  next
    case (Inr results)
    with False assms l have "r = Inr results" and "w' = session_close w2"
      by (auto simp: scrape_def init_session_def)
    with u show ?thesis by (intro exI [of _ urls]) (simp add: session_close_def)
  qed
qed

text \<open>
  Claim C6 fails on every run that an exception ends: \<open>session.close()\<close> is a plain
  call after the loop, so the session stays open. Three such runs: with a worker
  budget of 0 the thread pool raises \<open>ValueError\<close> after the session was opened; a
  fetch that is cancelled raises through \<open>except Exception\<close> and out of the loop; and
  for a congress number of more than 4300 digits the building of the first URL raises
  \<open>ValueError\<close> out of the loop. In each the trace of the run has the opening of the
  session and no closing.
\<close>

theorem session_left_open:
  "scrape sample_site (new_scraper 0) 119 119 [''legislation''] world0 =
     Some (Inl (Exc ''ValueError''), \<lparr>trace = [SessionOpen], ticks = 0\<rparr>)
   \<and> scrape cancelled_site (new_scraper 5) 119 119 [''legislation''] world0 =
     Some (Inl (BaseExc ''CancelledError''),
           \<lparr>trace = [SessionOpen, HttpGet (build_search_url (CongressInt 119) ''legislation'' 1)],
            ticks = 0\<rparr>)
   \<and> scrape failing_site (new_scraper 5) first_unwritable first_unwritable [''legislation'']
       world0 =
     Some (Inl (Exc ''ValueError''), \<lparr>trace = [SessionOpen], ticks = 0\<rparr>)
   \<and> SessionClose \<notin> set [SessionOpen]
   \<and> SessionClose \<notin> set [SessionOpen,
                            HttpGet (build_search_url (CongressInt 119) ''legislation'' 1)]"
  using value_error_run cancelled_run unwritable_run by simp

subsection \<open>Failures\<close>








section \<open>Reading the query back from the URL\<close>

subsection \<open>Hexadecimal digits\<close>

lemma lt16_cases:
  "n < 16 \<Longrightarrow> n \<in> {0, 1, 2, 3, 4, 5, 6, 7, 8, 9, 10, 11, 12, 13, 14, 15::nat}"
  by (simp, arith)

lemma hex_val_lower: "n < 16 \<Longrightarrow> hex_val (hex_lower n) = Some n"
  by (drule lt16_cases) (auto simp: hex_val_def hex_lower_def)

lemma hex_val_upper: "n < 16 \<Longrightarrow> hex_val (hex_upper n) = Some n"
  by (drule lt16_cases) (auto simp: hex_val_def hex_upper_def)

lemma hex_lower_plain:
  "n < 16 \<Longrightarrow> hex_lower n \<noteq> CHR '' '' \<and> hex_lower n \<noteq> CHR ''+''
     \<and> (of_char (hex_lower n) :: nat) < 128"
  by (drule lt16_cases) (auto simp: hex_lower_def)

lemma hex_upper_plain:
  "n < 16 \<Longrightarrow> hex_upper n \<noteq> CHR '' '' \<and> hex_upper n \<noteq> CHR ''%''"
  by (drule lt16_cases) (auto simp: hex_upper_def)

lemma hex_byte_upper: "b < 256 \<Longrightarrow> hex_byte (hex_upper (b div 16)) (hex_upper (b mod 16)) = Some b"
  by (simp add: hex_byte_def hex_val_upper)

lemma hex_byte_lower: "b < 256 \<Longrightarrow> hex_byte (hex_lower (b div 16)) (hex_lower (b mod 16)) = Some b"
  by (simp add: hex_byte_def hex_val_lower)

lemma byte_digits:
  assumes "(n::nat) < 256"
  shows "n div 4096 mod 16 = 0" "n div 256 mod 16 = 0" "n div 16 mod 16 = n div 16"
proof -
  from assms have "n div 4096 = 0" "n div 256 = 0" by simp_all
  then show "n div 4096 mod 16 = 0" "n div 256 mod 16 = 0" by simp_all
  from assms have "n div 16 < 16" by (simp add: less_mult_imp_div_less)
  then show "n div 16 mod 16 = n div 16" by simp
qed

lemma scan_string_u_escape:
  "scan_string (u_escape (of_char c) @ rest) = put_char c (scan_string rest)"
proof -
  let ?n = "of_char c :: nat"
  have n: "?n < 256" by simp
  have h0: "hex_byte (hex_lower 0) (hex_lower 0) = Some 0"
    by (simp add: hex_byte_def hex_val_lower)
  from n have h1: "hex_byte (hex_lower (?n div 16)) (hex_lower (?n mod 16)) = Some ?n"
    by (rule hex_byte_lower)
  have "u_escape ?n = [CHR 0x5C, CHR ''u'', hex_lower 0, hex_lower 0,
      hex_lower (?n div 16), hex_lower (?n mod 16)]"
    unfolding u_escape_def byte_digits [OF n] ..
  then show ?thesis
    by (simp add: hex4_val_def h0 h1)
qed

lemma scan_string_escape_char:
  "scan_string (escape_char c @ rest) = put_char c (scan_string rest)"
proof -
  consider "c = CHR 0x22" | "c = CHR 0x5C" | "c = CHR 0x0A" | "c = CHR 0x0D" | "c = CHR 0x09"
    | "c = CHR 0x08" | "c = CHR 0x0C"
    | "c \<notin> {CHR 0x22, CHR 0x5C, CHR 0x0A, CHR 0x0D, CHR 0x09, CHR 0x08, CHR 0x0C}"
      "(of_char c :: nat) < 32 \<or> 126 < (of_char c :: nat)"
    | "c \<notin> {CHR 0x22, CHR 0x5C, CHR 0x0A, CHR 0x0D, CHR 0x09, CHR 0x08, CHR 0x0C}"
      "\<not> ((of_char c :: nat) < 32 \<or> 126 < (of_char c :: nat))"
    by blast
  then show ?thesis
  proof cases
    case 8
    then have "escape_char c = u_escape (of_char c)" by (simp add: escape_char_def)
    then show ?thesis by (simp only: scan_string_u_escape)
  next
    case 9
    then show ?thesis by (simp add: escape_char_def)
  qed (simp_all add: escape_char_def unescape_def)
qed

lemma scan_string_escape_body:
  "scan_string (escape_body s @ CHR 0x22 # rest) = Some (s, rest)"
proof (induction s)
  case Nil
  then show ?case by (simp add: escape_body_def)
next
  case (Cons c s)
  have "escape_body (c # s) @ CHR 0x22 # rest = escape_char c @ (escape_body s @ CHR 0x22 # rest)"
    by (simp add: escape_body_def)
  with Cons show ?case
    by (simp only: scan_string_escape_char) (simp add: put_char_def)
qed

subsection \<open>Values\<close>

lemma skip_ws_Cons: "c \<notin> set [CHR '' '', CHR 0x09, CHR 0x0A, CHR 0x0D] \<Longrightarrow> skip_ws (c # s) = c # s"
  by (simp add: skip_ws_def)

lemma skip_ws_string: "skip_ws (encode_basestring_ascii s @ rest) = encode_basestring_ascii s @ rest"
  by (simp add: encode_basestring_ascii_def skip_ws_def)

lemma parse_value_string:
  "parse_value (Suc n) (encode_basestring_ascii s @ rest) = Some (PStr s, rest)"
  by (simp add: encode_basestring_ascii_def scan_string_escape_body)

lemma str_int_head:
  "\<exists>c cs. str_int i = c # cs \<and> (is_digit c \<or> c = CHR ''-'')"
proof (cases "i < 0")
  case True
  then show ?thesis by (simp add: str_int_def)
next
  case False
  obtain c cs where s: "str_nat (nat i) = c # cs"
    using str_nat_not_Nil [of "nat i"] by (cases "str_nat (nat i)") auto
  with str_nat_digits [of "nat i"] have "is_digit c" by simp
  with False s show ?thesis by (simp add: str_int_def)
qed

lemma skip_ws_int: "skip_ws (str_int i @ rest) = str_int i @ rest"
proof -
  from str_int_head [of i] obtain c cs where
    s: "str_int i = c # cs" and c: "is_digit c \<or> c = CHR ''-''" by blast
  from c have "c \<notin> set [CHR '' '', CHR 0x09, CHR 0x0A, CHR 0x0D]"
    by (auto simp: is_digit_def)
  with s show ?thesis by (simp add: skip_ws_Cons)
qed

lemma parse_value_int:
  assumes "number_ends rest"
  shows "parse_value (Suc n) (str_int i @ rest) = Some (PInt i, rest)"
proof -
  from str_int_head [of i] obtain c cs where
    s: "str_int i = c # cs" and c: "is_digit c \<or> c = CHR ''-''" by blast
  from c have n: "c \<noteq> CHR 0x22" "c \<noteq> CHR ''[''" "c \<noteq> CHR ''{''" "c \<noteq> CHR ''n''"
    by (auto simp: is_digit_def)
  then have t: "take 4 (c # cs @ rest) \<noteq> ''null''" by simp
  from scan_int_str_int [OF assms, of i] s
  have "scan_int (c # cs @ rest) = Some (i, rest)" by simp
  with n t s show ?thesis by simp
qed

lemma parse_value_bracket:
  "skip_ws r = c # r' \<Longrightarrow> c \<noteq> CHR '']'' \<Longrightarrow>
   parse_value (Suc n) (CHR ''['' # r) =
     map_option (\<lambda>(vs, r''). (PList vs, r'')) (parse_elems n (c # r'))"
  by simp

lemma parse_value_brace:
  "skip_ws r = c # r' \<Longrightarrow> c \<noteq> CHR ''}'' \<Longrightarrow>
   parse_value (Suc n) (CHR ''{'' # r) =
     map_option (\<lambda>(kvs, r''). (PDict (dict_update [] kvs), r'')) (parse_members n (c # r'))"
  by simp

lemma parse_elems_last:
  "parse_value n s = Some (v, r) \<Longrightarrow> skip_ws r = CHR '']'' # r' \<Longrightarrow>
   parse_elems (Suc n) s = Some ([v], r')"
  by simp

lemma parse_members_unfold:
  "parse_members (Suc n) (CHR 0x22 # r) =
     (case scan_string r of
        None \<Rightarrow> None
      | Some (k, r1) \<Rightarrow>
          (case skip_ws r1 of
             [] \<Rightarrow> None
           | c1 # r2 \<Rightarrow>
               if c1 \<noteq> CHR '':'' then None
               else (case parse_value n (skip_ws r2) of
                       None \<Rightarrow> None
                     | Some (v, r3) \<Rightarrow>
                         (case skip_ws r3 of
                            [] \<Rightarrow> None
                          | c3 # r4 \<Rightarrow>
                              if c3 = CHR ''}'' then Some ([(k, v)], r4)
                              else if c3 = CHR '','' then
                                map_option (\<lambda>(kvs, r5). ((k, v) # kvs, r5))
                                  (parse_members n (skip_ws r4))
                              else None))))"
  by simp

declare parse_value.simps [simp del] parse_elems.simps [simp del] parse_members.simps [simp del]

lemma parse_value_list1:
  "parse_value (Suc (Suc (Suc n))) (CHR ''['' # encode_basestring_ascii s @ CHR '']'' # rest)
     = Some (PList [PStr s], rest)"
proof -
  have "parse_value (Suc n) (encode_basestring_ascii s @ CHR '']'' # rest)
      = Some (PStr s, CHR '']'' # rest)"
    by (rule parse_value_string)
  moreover have "skip_ws (CHR '']'' # rest) = CHR '']'' # rest"
    by (simp add: skip_ws_Cons)
  ultimately have e: "parse_elems (Suc (Suc n)) (encode_basestring_ascii s @ CHR '']'' # rest)
      = Some ([PStr s], rest)"
    by (rule parse_elems_last)
  have "skip_ws (encode_basestring_ascii s @ CHR '']'' # rest)
      = CHR 0x22 # escape_body s @ CHR 0x22 # CHR '']'' # rest"
    by (simp add: skip_ws_string) (simp add: encode_basestring_ascii_def)
  then have "parse_value (Suc (Suc (Suc n))) (CHR ''['' # encode_basestring_ascii s @ CHR '']'' # rest)
      = map_option (\<lambda>(vs, r''). (PList vs, r''))
          (parse_elems (Suc (Suc n)) (CHR 0x22 # escape_body s @ CHR 0x22 # CHR '']'' # rest))"
    by (rule parse_value_bracket) simp
  with e show ?thesis by (simp add: encode_basestring_ascii_def)
qed

subsection \<open>Members\<close>

lemma parse_members_step:
  assumes "parse_value n (skip_ws after_colon) = Some (v, r3)"
  shows "parse_members (Suc n) (encode_basestring_ascii k @ CHR '':'' # after_colon) =
     (case skip_ws r3 of
        [] \<Rightarrow> None
      | c3 # r4 \<Rightarrow>
          if c3 = CHR ''}'' then Some ([(k, v)], r4)
          else if c3 = CHR '','' then
            map_option (\<lambda>(kvs, r5). ((k, v) # kvs, r5)) (parse_members n (skip_ws r4))
          else None)"
proof -
  have "encode_basestring_ascii k @ CHR '':'' # after_colon
      = CHR 0x22 # (escape_body k @ CHR 0x22 # CHR '':'' # after_colon)"
    by (simp add: encode_basestring_ascii_def)
  then show ?thesis
    using assms
    by (simp only: parse_members_unfold scan_string_escape_body) (simp add: skip_ws_Cons)
qed

lemma parse_value_object:
  assumes "parse_members n (encode_basestring_ascii k @ tail_text) = Some (kvs, rest)"
  shows "parse_value (Suc n) (CHR ''{'' # encode_basestring_ascii k @ tail_text)
     = Some (PDict (dict_update [] kvs), rest)"
proof -
  have "skip_ws (encode_basestring_ascii k @ tail_text)
      = CHR 0x22 # escape_body k @ CHR 0x22 # tail_text"
    by (simp add: skip_ws_string) (simp add: encode_basestring_ascii_def)
  then have "parse_value (Suc n) (CHR ''{'' # encode_basestring_ascii k @ tail_text)
      = map_option (\<lambda>(kvs, r''). (PDict (dict_update [] kvs), r''))
          (parse_members n (CHR 0x22 # escape_body k @ CHR 0x22 # tail_text))"
    by (rule parse_value_brace) simp
  with assms show ?thesis by (simp add: encode_basestring_ascii_def)
qed

subsection \<open>Query objects\<close>

lemma six_le: "6 \<le> f \<Longrightarrow> \<exists>m. f = Suc (Suc (Suc (Suc (Suc (Suc m)))))"
  by (rule exI [of _ "f - 6"]) simp

lemma dumps_first_page:
  "json_dumps (PDict [(''congress'', PStr c), (''source'', PList [PStr s])]) =
     CHR ''{'' # encode_basestring_ascii ''congress'' @ CHR '':'' # encode_basestring_ascii c
       @ CHR '','' # encode_basestring_ascii ''source'' @ CHR '':'' # CHR ''[''
       # encode_basestring_ascii s @ CHR '']'' # [CHR ''}'']"
  by simp

lemma dumps_later_page:
  "json_dumps (PDict [(''congress'', PStr c), (''source'', PList [PStr s]),
                      (''pageSize'', PInt 100), (''page'', PInt p)]) =
     CHR ''{'' # encode_basestring_ascii ''congress'' @ CHR '':'' # encode_basestring_ascii c
       @ CHR '','' # encode_basestring_ascii ''source'' @ CHR '':'' # CHR ''[''
       # encode_basestring_ascii s @ CHR '']'' # CHR '',''
       # encode_basestring_ascii ''pageSize'' @ CHR '':'' # str_int 100
       @ CHR '','' # encode_basestring_ascii ''page'' @ CHR '':'' # str_int p @ [CHR ''}'']"
  by simp

lemma members_source_last:
  "parse_members (Suc (Suc (Suc (Suc n))))
     (encode_basestring_ascii ''source'' @ CHR '':'' # CHR ''[''
        # encode_basestring_ascii s @ CHR '']'' # CHR ''}'' # rest)
   = Some ([(''source'', PList [PStr s])], rest)"
proof -
  have "parse_value (Suc (Suc (Suc n)))
      (skip_ws (CHR ''['' # encode_basestring_ascii s @ CHR '']'' # CHR ''}'' # rest))
      = Some (PList [PStr s], CHR ''}'' # rest)"
    by (simp add: skip_ws_Cons parse_value_list1)
  from parse_members_step [OF this, of "''source''"] show ?thesis
    by (simp add: skip_ws_Cons)
qed

lemma members_congress:
  assumes "parse_members (Suc n) (encode_basestring_ascii k @ tail_text) = Some (kvs, rest)"
  shows "parse_members (Suc (Suc n))
     (encode_basestring_ascii ''congress'' @ CHR '':'' # encode_basestring_ascii c
        @ CHR '','' # encode_basestring_ascii k @ tail_text)
   = Some ((''congress'', PStr c) # kvs, rest)"
proof -
  have "parse_value (Suc n)
      (skip_ws (encode_basestring_ascii c @ CHR '','' # encode_basestring_ascii k @ tail_text))
      = Some (PStr c, CHR '','' # encode_basestring_ascii k @ tail_text)"
    by (simp add: skip_ws_string parse_value_string)
  from parse_members_step [OF this, of "''congress''"] assms show ?thesis
    by (simp add: skip_ws_Cons skip_ws_string)
qed

lemma parse_first_page:
  assumes "6 \<le> f"
  shows "parse_value f
     (json_dumps (PDict [(''congress'', PStr c), (''source'', PList [PStr s])]) @ rest)
   = Some (PDict [(''congress'', PStr c), (''source'', PList [PStr s])], rest)"
proof -
  from six_le [OF assms] obtain m where f: "f = Suc (Suc (Suc (Suc (Suc (Suc m)))))" by blast
  have "parse_members (Suc (Suc (Suc (Suc m))))
     (encode_basestring_ascii ''source'' @ CHR '':'' # CHR ''[''
        # encode_basestring_ascii s @ CHR '']'' # CHR ''}'' # rest)
   = Some ([(''source'', PList [PStr s])], rest)"
    by (rule members_source_last)
  from parse_value_object [OF members_congress [OF this]] show ?thesis
    unfolding f dumps_first_page by simp
qed

lemma members_source_more:
  assumes "parse_members (Suc (Suc (Suc n))) (encode_basestring_ascii k @ tail_text) = Some (kvs, rest)"
  shows "parse_members (Suc (Suc (Suc (Suc n))))
     (encode_basestring_ascii ''source'' @ CHR '':'' # CHR ''[''
        # encode_basestring_ascii s @ CHR '']'' # CHR '','' # encode_basestring_ascii k @ tail_text)
   = Some ((''source'', PList [PStr s]) # kvs, rest)"
proof -
  have "parse_value (Suc (Suc (Suc n)))
      (skip_ws (CHR ''['' # encode_basestring_ascii s @ CHR '']'' # CHR '',''
                 # encode_basestring_ascii k @ tail_text))
      = Some (PList [PStr s], CHR '','' # encode_basestring_ascii k @ tail_text)"
    by (simp add: skip_ws_Cons parse_value_list1)
  from parse_members_step [OF this, of "''source''"] assms show ?thesis
    by (simp add: skip_ws_Cons skip_ws_string)
qed

lemma members_int:
  assumes "number_ends (c # tail_text)"
    and "(c = CHR ''}'' \<and> out = Some ([(k, PInt i)], tail_text))
       \<or> (c = CHR '','' \<and> out = map_option (\<lambda>(kvs, r5). ((k, PInt i) # kvs, r5))
                                  (parse_members (Suc n) (skip_ws tail_text)))"
  shows "parse_members (Suc (Suc n))
     (encode_basestring_ascii k @ CHR '':'' # str_int i @ c # tail_text) = out"
proof -
  have "parse_value (Suc n) (skip_ws (str_int i @ c # tail_text)) = Some (PInt i, c # tail_text)"
    using assms(1) by (simp add: skip_ws_int parse_value_int)
  from parse_members_step [OF this, of k] assms(2) show ?thesis
    by (auto simp: skip_ws_Cons)
qed

lemma parse_later_page:
  assumes "6 \<le> f"
  shows "parse_value f
     (json_dumps (PDict [(''congress'', PStr c), (''source'', PList [PStr s]),
                         (''pageSize'', PInt 100), (''page'', PInt p)]) @ rest)
   = Some (PDict [(''congress'', PStr c), (''source'', PList [PStr s]),
                  (''pageSize'', PInt 100), (''page'', PInt p)], rest)"
proof -
  from six_le [OF assms] obtain m where f: "f = Suc (Suc (Suc (Suc (Suc (Suc m)))))" by blast
  have e: "number_ends (CHR ''}'' # rest)"
    by (simp add: number_ends_def is_digit_def)
  have p4: "parse_members (Suc (Suc m))
      (encode_basestring_ascii ''page'' @ CHR '':'' # str_int p @ CHR ''}'' # rest)
      = Some ([(''page'', PInt p)], rest)"
    by (rule members_int [OF e]) simp
  have c: "number_ends (CHR '','' # encode_basestring_ascii ''page'' @ CHR '':'' # str_int p
                          @ CHR ''}'' # rest)"
    by (simp add: number_ends_def is_digit_def)
  have p3: "parse_members (Suc (Suc (Suc m)))
      (encode_basestring_ascii ''pageSize'' @ CHR '':'' # str_int 100 @ CHR '',''
         # encode_basestring_ascii ''page'' @ CHR '':'' # str_int p @ CHR ''}'' # rest)
      = Some ([(''pageSize'', PInt 100), (''page'', PInt p)], rest)"
    by (rule members_int [OF c]) (simp add: skip_ws_string p4)
  from parse_value_object [OF members_congress [OF members_source_more [OF p3]]]
  show ?thesis
    unfolding f dumps_later_page by simp
qed

lemma json_loads_query:
  "json_loads (json_dumps (PDict (build_query c s p))) = Some (PDict (build_query c s p))"
proof -
  let ?t = "json_dumps (PDict (build_query c s p))"
  have l: "6 \<le> Suc (length ?t)"
    by (cases "1 < p")
      (simp_all add: build_query_later_page build_query_first_page encode_basestring_ascii_def)
  have w: "skip_ws ?t = ?t"
    by (cases "1 < p")
      (simp_all add: build_query_later_page build_query_first_page skip_ws_Cons)
  have "parse_value (Suc (length ?t)) (?t @ []) = Some (PDict (build_query c s p), [])"
    using parse_first_page [OF l, of "congress_str c" s "[]"]
      parse_later_page [OF l, of "congress_str c" s p "[]"]
    by (cases "1 < p") (simp_all add: build_query_later_page build_query_first_page)
  with w show ?thesis
    by (simp add: json_loads_def skip_ws_def)
qed

subsection \<open>Quoting\<close>

lemma unquote_plain:
  assumes "c \<noteq> CHR ''%''"
  shows "unquote (c # xs) = map_option ((#) c) (unquote xs)"
proof (cases xs)
  case Nil
  then show ?thesis by simp
next
  case (Cons d ys)
  with assms show ?thesis by (cases ys) simp_all
qed

lemma unquote_pct:
  "b < 128 \<Longrightarrow>
   unquote (CHR ''%'' # hex_upper (b div 16) # hex_upper (b mod 16) # xs)
     = map_option ((#) (char_of b)) (unquote xs)"
  by (simp add: hex_byte_upper)

lemma always_safe_plain:
  "c \<in> set always_safe \<Longrightarrow> c \<noteq> CHR ''%'' \<and> c \<noteq> CHR '' '' \<and> c \<noteq> CHR ''+''"
  by (auto simp: always_safe_def)

lemma utf8_encode_ascii:
  "\<forall>c \<in> set t. (of_char c :: nat) < 128 \<Longrightarrow> utf8_encode t = map of_char t"
  by (induction t) (simp_all add: utf8_encode_def)

lemma unquote_quote_byte_no_space:
  assumes "(of_char c :: nat) < 128" and "c \<noteq> CHR '' ''"
  shows "unquote (quote_byte '''' (of_char c) @ xs) = map_option ((#) c) (unquote xs)"
proof (cases "c \<in> set always_safe")
  case True
  with assms always_safe_plain [OF True] show ?thesis
    by (simp add: quote_byte_def unquote_plain)
next
  case False
  with assms unquote_pct [OF assms(1), of xs] show ?thesis
    by (simp add: quote_byte_def)
qed

lemma unquote_quote_no_space:
  assumes "\<forall>c \<in> set t. (of_char c :: nat) < 128" and "CHR '' '' \<notin> set t"
  shows "unquote (quote t '''') = Some t"
proof -
  have "unquote (concat (map (quote_byte '''') (map of_char t))) = Some t"
    using assms
  proof (induction t)
    case Nil
    then show ?case by simp
  next
    case (Cons c t)
    then have "(of_char c :: nat) < 128" and "c \<noteq> CHR '' ''" by auto
    from unquote_quote_byte_no_space [OF this] Cons show ?case by simp
  qed
  with assms(1) show ?thesis by (simp add: quote_def utf8_encode_ascii)
qed

lemma hex_upper_no_plus: "n < 16 \<Longrightarrow> hex_upper n \<noteq> CHR ''+''"
  by (drule lt16_cases) (auto simp: hex_upper_def)

lemma replace_space_plus_append:
  "replace_space_plus (a @ b) = replace_space_plus a @ replace_space_plus b"
  by (simp add: replace_space_plus_def)

lemma byte_nibbles: "(b::nat) < 128 \<Longrightarrow> b div 16 < 16 \<and> b mod 16 < 16"
  by (simp add: less_mult_imp_div_less)

lemma quote_byte_keep:
  "(of_char c :: nat) < 128 \<Longrightarrow> c \<in> set (always_safe @ safe) \<Longrightarrow>
   quote_byte safe (of_char c) = [c]"
  by (simp add: quote_byte_def)

lemma replace_space_plus_id: "CHR '' '' \<notin> set t \<Longrightarrow> replace_space_plus t = t"
  by (induction t) (auto simp: replace_space_plus_def)

lemma unquote_quote_byte_space:
  assumes "(of_char c :: nat) < 128"
  shows "unquote (replace_space_plus (quote_byte '' '' (of_char c)) @ xs)
     = map_option ((#) (if c = CHR '' '' then CHR ''+'' else c)) (unquote xs)"
proof (cases "c \<in> set always_safe")
  case True
  with assms always_safe_plain [OF True] show ?thesis
    by (simp add: quote_byte_def unquote_plain replace_space_plus_def)
next
  case False
  show ?thesis
  proof (cases "c = CHR '' ''")
    case True
    then have "c \<in> set (always_safe @ '' '')" by simp
    from quote_byte_keep [OF assms this] True show ?thesis
      by (simp add: unquote_plain replace_space_plus_def)
  next
    case n: False
    from byte_nibbles [OF assms] have
      "hex_upper (of_char c div 16) \<noteq> CHR '' ''" "hex_upper (of_char c mod 16) \<noteq> CHR '' ''"
      using hex_upper_plain by blast+
    with False n assms unquote_pct [OF assms, of xs] show ?thesis
      by (simp add: quote_byte_def replace_space_plus_def)
  qed
qed

lemma unquote_quote_space:
  assumes "\<forall>c \<in> set t. (of_char c :: nat) < 128"
  shows "unquote (replace_space_plus (quote t '' '')) = Some (replace_space_plus t)"
proof -
  have "unquote (replace_space_plus (concat (map (quote_byte '' '') (map of_char t))))
      = Some (replace_space_plus t)"
    using assms
  proof (induction t)
    case Nil
    then show ?case by (simp add: replace_space_plus_def)
  next
    case (Cons c t)
    then have a: "(of_char c :: nat) < 128" by simp
    from Cons have "unquote (replace_space_plus (concat (map (quote_byte '' '') (map of_char t))))
      = Some (replace_space_plus t)" by simp
    with unquote_quote_byte_space [OF a] show ?case
      by (simp add: replace_space_plus_append) (simp add: replace_space_plus_def)
  qed
  with assms show ?thesis by (simp add: quote_def utf8_encode_ascii)
qed

lemma unquote_quote_plus:
  assumes "\<forall>c \<in> set t. (of_char c :: nat) < 128"
  shows "unquote (quote_plus t) = Some (replace_space_plus t)"
proof (cases "CHR '' '' \<in> set t")
  case True
  with unquote_quote_space [OF assms] show ?thesis by (simp add: quote_plus_def)
next
  case False
  then have "replace_space_plus t = t"
    by (rule replace_space_plus_id)
  with False unquote_quote_no_space [OF assms] show ?thesis by (simp add: quote_plus_def)
qed

subsection \<open>The JSON text is ASCII, and spaces only come from the strings\<close>

lemma escape_char_ascii: "\<forall>x \<in> set (escape_char c). (of_char x :: nat) < 128"
proof -
  have n: "of_char c div 16 < (16::nat)" "of_char c mod 16 < (16::nat)"
    by (simp_all add: less_mult_imp_div_less)
  have "\<forall>x \<in> set (u_escape (of_char c)). (of_char x :: nat) < 128"
    using hex_lower_plain [OF n(1)] hex_lower_plain [OF n(2)] hex_lower_plain [of 0]
    by (simp add: u_escape_def byte_digits)
  then show ?thesis
    by (auto simp: escape_char_def)
qed

lemma escape_char_space:
  "replace_space_plus (escape_char c) = escape_char (if c = CHR '' '' then CHR ''+'' else c)"
proof (cases "c = CHR '' ''")
  case True
  then show ?thesis by (simp add: escape_char_def replace_space_plus_def)
next
  case False
  have n: "of_char c div 16 < (16::nat)" "of_char c mod 16 < (16::nat)"
    by (simp_all add: less_mult_imp_div_less)
  have "replace_space_plus (u_escape (of_char c)) = u_escape (of_char c)"
    using hex_lower_plain [OF n(1)] hex_lower_plain [OF n(2)] hex_lower_plain [of 0]
    by (simp add: u_escape_def byte_digits replace_space_plus_def)
  with False show ?thesis
    by (auto simp: escape_char_def replace_space_plus_def)
qed

lemma encode_ascii: "\<forall>x \<in> set (encode_basestring_ascii s). (of_char x :: nat) < 128"
  using escape_char_ascii by (auto simp: encode_basestring_ascii_def escape_body_def)

lemma encode_space:
  "replace_space_plus (encode_basestring_ascii s) = encode_basestring_ascii (replace_space_plus s)"
proof -
  have "replace_space_plus (escape_body s) = escape_body (replace_space_plus s)"
  proof (induction s)
    case Nil
    then show ?case by (simp add: escape_body_def replace_space_plus_def)
  next
    case (Cons c s)
    have "escape_body (c # s) = escape_char c @ escape_body s"
      by (simp add: escape_body_def)
    with Cons escape_char_space [of c] show ?case
      by (simp add: replace_space_plus_append)
        (simp add: escape_body_def replace_space_plus_def)
  qed
  then show ?thesis
    by (simp add: encode_basestring_ascii_def replace_space_plus_append)
      (simp add: replace_space_plus_def)
qed

lemma str_int_chars: "\<forall>x \<in> set (str_int i). is_digit x \<or> x = CHR ''-''"
  using str_nat_digits by (auto simp: str_int_def)

lemma str_int_ascii: "\<forall>x \<in> set (str_int i). (of_char x :: nat) < 128"
  using str_int_chars [of i] by (auto simp: is_digit_def)

lemma str_int_space: "replace_space_plus (str_int i) = str_int i"
proof -
  have "CHR '' '' \<notin> set (str_int i)"
    using str_int_chars [of i] by (auto simp: is_digit_def)
  then show ?thesis by (rule replace_space_plus_id)
qed

subsection \<open>Decoding with \<open>unquote_plus\<close>\<close>

lemma unquote_quote_byte_keep_space:
  assumes "(of_char c :: nat) < 128"
  shows "unquote (quote_byte '' '' (of_char c) @ xs) = map_option ((#) c) (unquote xs)"
proof (cases "c \<in> set (always_safe @ '' '')")
  case True
  then have "c \<noteq> CHR ''%''" using always_safe_plain [of c] by auto
  with quote_byte_keep [OF assms True] show ?thesis by (simp add: unquote_plain)
next
  case False
  with assms unquote_pct [OF assms, of xs] show ?thesis
    by (simp add: quote_byte_def)
qed

lemma unquote_quote_keep_space:
  assumes "\<forall>c \<in> set t. (of_char c :: nat) < 128"
  shows "unquote (quote t '' '') = Some t"
proof -
  have "unquote (concat (map (quote_byte '' '') (map of_char t))) = Some t"
    using assms
  proof (induction t)
    case Nil
    then show ?case by simp
  next
    case (Cons c t)
    then have "(of_char c :: nat) < 128" by simp
    from unquote_quote_byte_keep_space [OF this] Cons show ?case by simp
  qed
  with assms show ?thesis by (simp add: quote_def utf8_encode_ascii)
qed

lemma quote_byte_no_plus:
  assumes "(of_char c :: nat) < 128"
  shows "CHR ''+'' \<notin> set (quote_byte '''' (of_char c))"
    and "map (\<lambda>x. if x = CHR ''+'' then CHR '' '' else x)
           (replace_space_plus (quote_byte '' '' (of_char c))) = quote_byte '' '' (of_char c)"
proof -
  from byte_nibbles [OF assms] have h:
    "hex_upper (of_char c div 16) \<noteq> CHR ''+''" "hex_upper (of_char c mod 16) \<noteq> CHR ''+''"
    "hex_upper (of_char c div 16) \<noteq> CHR '' ''" "hex_upper (of_char c mod 16) \<noteq> CHR '' ''"
    using hex_upper_no_plus hex_upper_plain by blast+
  show "CHR ''+'' \<notin> set (quote_byte '''' (of_char c))"
    using h always_safe_plain [of c] assms by (auto simp: quote_byte_def)
  show "map (\<lambda>x. if x = CHR ''+'' then CHR '' '' else x)
           (replace_space_plus (quote_byte '' '' (of_char c))) = quote_byte '' '' (of_char c)"
  proof (cases "c \<in> set (always_safe @ '' '')")
    case True
    from quote_byte_keep [OF assms True] True always_safe_plain [of c] show ?thesis
      by (auto simp: replace_space_plus_def)
  next
    case False
    with h assms show ?thesis
      by (simp add: quote_byte_def replace_space_plus_def)
  qed
qed

lemma map_replace_absent: "x \<notin> set xs \<Longrightarrow> map (\<lambda>y. if y = x then z else y) xs = xs"
  by (induction xs) auto

lemma unquote_plus_quote_plus:
  assumes "\<forall>c \<in> set t. (of_char c :: nat) < 128"
  shows "unquote_plus (quote_plus t) = Some t"
proof (cases "CHR '' '' \<in> set t")
  case True
  have "map (\<lambda>x. if x = CHR ''+'' then CHR '' '' else x)
          (replace_space_plus (concat (map (quote_byte '' '') (map of_char t))))
        = concat (map (quote_byte '' '') (map of_char t))"
    using assms
  proof (induction t)
    case Nil
    then show ?case by (simp add: replace_space_plus_def)
  next
    case (Cons c t)
    then have "(of_char c :: nat) < 128" by simp
    from quote_byte_no_plus(2) [OF this] Cons show ?case
      by (simp add: replace_space_plus_append)
  qed
  with assms have "map (\<lambda>x. if x = CHR ''+'' then CHR '' '' else x)
          (replace_space_plus (quote t '' '')) = quote t '' ''"
    by (simp add: quote_def utf8_encode_ascii)
  with True unquote_quote_keep_space [OF assms] show ?thesis
    by (simp add: unquote_plus_def quote_plus_def)
next
  case False
  have "CHR ''+'' \<notin> set (concat (map (quote_byte '''') (map of_char t)))"
    using assms quote_byte_no_plus(1) by auto
  with assms have "CHR ''+'' \<notin> set (quote t '''')"
    by (simp add: quote_def utf8_encode_ascii)
  then have "map (\<lambda>x. if x = CHR ''+'' then CHR '' '' else x) (quote t '''') = quote t ''''"
    by (rule map_replace_absent)
  with False unquote_quote_no_space [OF assms] show ?thesis
    by (simp add: unquote_plus_def quote_plus_def)
qed

subsection \<open>The whole way\<close>

lemma query_text_ascii:
  "\<forall>x \<in> set (json_dumps (PDict (build_query c s p))). (of_char x :: nat) < 128"
proof (cases "1 < p")
  case True
  then show ?thesis
    using encode_ascii str_int_ascii
    by (auto simp: build_query_later_page)
next
  case False
  then show ?thesis
    using encode_ascii
    by (auto simp: build_query_first_page)
qed

lemma query_text_space:
  "replace_space_plus (json_dumps (PDict (build_query c s p))) =
   json_dumps (PDict (build_query (CongressStr (replace_space_plus (congress_str c)))
                                  (replace_space_plus s) p))"
proof -
  have k: "replace_space_plus ''congress'' = ''congress''"
    "replace_space_plus ''source'' = ''source''"
    "replace_space_plus ''pageSize'' = ''pageSize''" "replace_space_plus ''page'' = ''page''"
    by (simp_all add: replace_space_plus_def)
  have c: "\<And>x xs. replace_space_plus (x # xs) =
      (if x = CHR '' '' then CHR ''+'' else x) # replace_space_plus xs"
    by (simp add: replace_space_plus_def)
  have n: "replace_space_plus [] = []" by (simp add: replace_space_plus_def)
  show ?thesis
    by (cases "1 < p")
      (simp_all add: build_query_later_page build_query_first_page congress_str_def
        replace_space_plus_append encode_space str_int_space k c n)
qed

lemma q_param_url:
  "q_param (build_search_url c s p) = Some (quote_plus (json_dumps (PDict (build_query c s p))))"
  by (simp add: build_search_url_q q_param_def base_url_def)

lemma build_query_congress_str:
  "build_query (CongressStr (congress_str c)) s p = build_query c s p"
  by (simp add: build_query_def congress_str_def)

text \<open>
  Claim C4, as the code has it. \<open>urlencode\<close> writes a space of the JSON text as a plus
  sign, which percent-decoding leaves alone. So taking the value of \<open>q\<close> out of a built
  URL, decoding it with \<open>unquote\<close> and reading it with \<open>json.loads\<close> gives the query
  in which every space of the source and of the congress string has become a plus sign.
  The query itself comes back whenever neither holds a space, so for every integer
  congress and source without space; and it comes back for every input when the value
  is decoded with \<open>unquote_plus\<close>.
\<close>

theorem decoded_query_plus_for_space:
  "decode_q (build_search_url c s p) =
     Some (PDict (build_query (CongressStr (replace_space_plus (congress_str c)))
                              (replace_space_plus s) p))
   \<and> (CHR '' '' \<notin> set s \<and> CHR '' '' \<notin> set (congress_str c) \<longrightarrow>
        decode_q (build_search_url c s p) = Some (PDict (build_query c s p)))
   \<and> (CHR '' '' \<notin> set s \<longrightarrow>
        decode_q (build_search_url (CongressInt i) s p) = Some (PDict (build_query (CongressInt i) s p)))
   \<and> decode_q_plus (build_search_url c s p) = Some (PDict (build_query c s p))"
proof -
  have d: "\<And>c. decode_q (build_search_url c s p) =
     Some (PDict (build_query (CongressStr (replace_space_plus (congress_str c)))
                              (replace_space_plus s) p))"
    by (simp only: decode_q_def q_param_url unquote_quote_plus [OF query_text_ascii]
        query_text_space json_loads_query option.simps)
  have e: "\<And>c. CHR '' '' \<notin> set s \<and> CHR '' '' \<notin> set (congress_str c) \<Longrightarrow>
        decode_q (build_search_url c s p) = Some (PDict (build_query c s p))"
    by (simp add: d replace_space_plus_id build_query_congress_str)
  have "CHR '' '' \<notin> set (congress_str (CongressInt i))"
    using str_int_chars [of i] by (auto simp: congress_str_def is_digit_def)
  with e [of "CongressInt i"] have f: "CHR '' '' \<notin> set s \<longrightarrow>
        decode_q (build_search_url (CongressInt i) s p) = Some (PDict (build_query (CongressInt i) s p))"
    by simp
  have g: "decode_q_plus (build_search_url c s p) = Some (PDict (build_query c s p))"
    by (simp only: decode_q_plus_def q_param_url unquote_plus_quote_plus [OF query_text_ascii]
        json_loads_query option.simps)
  from d e f g show ?thesis by blast
qed

theorem decoded_query_plus_for_space_witness:
  "CHR '' '' \<notin> set ''comreports''
   \<and> decode_q (build_search_url (CongressInt 118) ''comreports'' 2) =
       Some (PDict [(''congress'', PStr ''118''), (''source'', PList [PStr ''comreports'']),
                    (''pageSize'', PInt 100), (''page'', PInt 2)])"
proof -
  have n: "CHR '' '' \<notin> set ''comreports''" by simp
  have e: "str_int 118 = ''118''" by code_simp
  from decoded_query_plus_for_space [of "CongressInt 118" "''comreports''" 2 118] n
  have "decode_q (build_search_url (CongressInt 118) ''comreports'' 2) =
      Some (PDict (build_query (CongressInt 118) ''comreports'' 2))"
    by blast
  with n show ?thesis
    by (simp add: build_query_def congress_str_def e)
qed

text \<open>
  Claim C4 as stated fails for a source with a space: the query built for
  \<open>committee reports\<close> is read back with the source \<open>committee+reports\<close>.
\<close>

theorem space_not_read_back:
  "decode_q (build_search_url (CongressInt 119) ''committee reports'' 1) =
     Some (PDict [(''congress'', PStr ''119''), (''source'', PList [PStr ''committee+reports''])])
   \<and> build_query (CongressInt 119) ''committee reports'' 1 =
     [(''congress'', PStr ''119''), (''source'', PList [PStr ''committee reports''])]
   \<and> decode_q (build_search_url (CongressInt 119) ''committee reports'' 1) \<noteq>
     Some (PDict (build_query (CongressInt 119) ''committee reports'' 1))"
  by code_simp

end
